theory Spec2Isabelle
  imports Main
begin

section \<open>The board and the rules\<close>

text \<open>
  The development follows \<^verbatim>\<open>tictactoe.py\<close>. A cell of the Python board holds
  \<^verbatim>\<open>"X"\<close>, \<^verbatim>\<open>"O"\<close> or \<^verbatim>\<open>None\<close> (the constant \<^verbatim>\<open>EMPTY\<close>); a board is a list of rows,
  each row a list of cells. Indices are Python integers, so an index may be negative
  (counting from the end) and an index outside the list raises \<^verbatim>\<open>IndexError\<close>. Every
  raise of the source is a value \<open>Inl e\<close> of the result type.
\<close>

text \<open>The mark \<^verbatim>\<open>O\<close> is written \<open>O'\<close>: the letter alone is the composition of relations.\<close>

datatype mark = X | O'

type_synonym cell = "mark option"

abbreviation EMPTY :: cell where
  "EMPTY \<equiv> None"

type_synonym board = "cell list list"

type_synonym action = "int \<times> int"

datatype error =
    IndexError      \<comment> \<open>a list index out of range\<close>
  | InvalidAction   \<comment> \<open>\<^verbatim>\<open>raise Exception("Invalid action")\<close> in \<^verbatim>\<open>result\<close>\<close>

text \<open>Sequencing of computations that may raise: the first raise wins.\<close>

definition ebind :: "error + 'a \<Rightarrow> ('a \<Rightarrow> error + 'b) \<Rightarrow> error + 'b" where
  "ebind m f = (case m of Inl e \<Rightarrow> Inl e | Inr v \<Rightarrow> f v)"

text \<open>
  Python's list indexing \<^verbatim>\<open>xs[i]\<close>: position \<open>i\<close> for \<open>0 \<le> i < len\<close>, position
  \<open>len + i\<close> for \<open>- len \<le> i < 0\<close>, \<^verbatim>\<open>IndexError\<close> otherwise.
\<close>

definition py_index :: "nat \<Rightarrow> int \<Rightarrow> error + nat" where
  "py_index len i =
     (if 0 \<le> i \<and> i < int len then Inr (nat i)
      else if i < 0 \<and> - int len \<le> i then Inr (nat (int len + i))
      else Inl IndexError)"

definition py_get :: "'a list \<Rightarrow> int \<Rightarrow> error + 'a" where
  "py_get xs i = ebind (py_index (length xs) i) (\<lambda>k. Inr (xs ! k))"

definition py_set :: "'a list \<Rightarrow> int \<Rightarrow> 'a \<Rightarrow> error + 'a list" where
  "py_set xs i v = ebind (py_index (length xs) i) (\<lambda>k. Inr (xs[k := v]))"

text \<open>\<^verbatim>\<open>board[row][column]\<close>\<close>

definition cell_at :: "board \<Rightarrow> int \<Rightarrow> int \<Rightarrow> error + cell" where
  "cell_at b row column = ebind (py_get b row) (\<lambda>r. py_get r column)"

text \<open>\<^verbatim>\<open>range(3)\<close>\<close>

definition range3 :: "int list" where
  "range3 = [0, 1, 2]"

subsection \<open>\<^verbatim>\<open>initial_state\<close>, \<^verbatim>\<open>player\<close>, \<^verbatim>\<open>actions\<close>, \<^verbatim>\<open>result\<close>\<close>

definition initial_state :: board where
  "initial_state = [[EMPTY, EMPTY, EMPTY],
                    [EMPTY, EMPTY, EMPTY],
                    [EMPTY, EMPTY, EMPTY]]"

text \<open>\<^verbatim>\<open>sum(row.count(m) for row in board)\<close>\<close>

definition count_mark :: "cell \<Rightarrow> board \<Rightarrow> nat" where
  "count_mark m b = sum_list (map (\<lambda>row. count_list row m) b)"

definition player :: "board \<Rightarrow> mark" where
  "player b =
     (let x_moves = count_mark (Some X) b;
          o_moves = count_mark (Some O') b
      in if x_moves = o_moves then X else O')"

text \<open>
  The two nested loops of \<^verbatim>\<open>actions\<close> visit the cells row by row; the accumulator is
  the set \<^verbatim>\<open>possible_actions\<close>.
\<close>

fun actions_loop :: "board \<Rightarrow> action list \<Rightarrow> action set \<Rightarrow> error + action set" where
  "actions_loop b [] possible_actions = Inr possible_actions"
| "actions_loop b ((row, column) # rest) possible_actions =
     ebind (cell_at b row column) (\<lambda>c.
       actions_loop b rest
         (if c = EMPTY then insert (row, column) possible_actions else possible_actions))"

definition actions :: "board \<Rightarrow> error + action set" where
  "actions b = actions_loop b (List.product range3 range3) {}"

text \<open>
  \<^verbatim>\<open>result\<close> on boards as values: the deep copy is the board itself, and the assignment
  \<^verbatim>\<open>next_board[row][column] = player(board)\<close> rebuilds the row and the list of rows.
  The same function on a store of list objects, where copying and sharing are visible,
  is \<open>result_st\<close> below.
\<close>

definition result :: "board \<Rightarrow> action \<Rightarrow> error + board" where
  "result b action =
     (let row = fst action; column = snd action in
      ebind (cell_at b row column) (\<lambda>c.
        if c \<noteq> EMPTY then Inl InvalidAction
        else
          let next_board = b in
          ebind (py_get next_board row) (\<lambda>r.
          ebind (py_set r column (Some (player b))) (\<lambda>r'.
          py_set next_board row r'))))"

subsection \<open>\<^verbatim>\<open>winner\<close>, \<^verbatim>\<open>terminal\<close>, \<^verbatim>\<open>utility\<close>\<close>

text \<open>
  The \<^verbatim>\<open>and\<close> chains evaluate from the left and stop at the first false operand, so a
  cell is read only when the operands before it are true. A loop that ends without
  \<^verbatim>\<open>return\<close> gives \<^verbatim>\<open>None\<close>.
\<close>

fun check_row_wins_loop :: "board \<Rightarrow> int list \<Rightarrow> error + cell" where
  "check_row_wins_loop b [] = Inr None"
| "check_row_wins_loop b (row # rest) =
     ebind (cell_at b row 0) (\<lambda>candidate.
       if candidate = None then check_row_wins_loop b rest
       else ebind (cell_at b row 1) (\<lambda>c1.
         if candidate \<noteq> c1 then check_row_wins_loop b rest
         else ebind (cell_at b row 2) (\<lambda>c2.
           if candidate \<noteq> c2 then check_row_wins_loop b rest
           else Inr candidate)))"

definition check_row_wins :: "board \<Rightarrow> error + cell" where
  "check_row_wins b = check_row_wins_loop b range3"

fun check_column_wins_loop :: "board \<Rightarrow> int list \<Rightarrow> error + cell" where
  "check_column_wins_loop b [] = Inr None"
| "check_column_wins_loop b (col # rest) =
     ebind (cell_at b 0 col) (\<lambda>candidate.
       if candidate = None then check_column_wins_loop b rest
       else ebind (cell_at b 1 col) (\<lambda>c1.
         if candidate \<noteq> c1 then check_column_wins_loop b rest
         else ebind (cell_at b 2 col) (\<lambda>c2.
           if candidate \<noteq> c2 then check_column_wins_loop b rest
           else Inr candidate)))"

definition check_column_wins :: "board \<Rightarrow> error + cell" where
  "check_column_wins b = check_column_wins_loop b range3"

text \<open>
  The condition of \<^verbatim>\<open>check_diagonal_wins\<close> parses as
  \<^verbatim>\<open>(candidate is not None and (c == b[0][0] and c == b[2][2])) or (c == b[0][2] and c == b[2][0])\<close>:
  the test for \<^verbatim>\<open>None\<close> guards the first diagonal only.
\<close>

definition check_diagonal_wins :: "board \<Rightarrow> error + cell" where
  "check_diagonal_wins b =
     ebind (cell_at b 1 1) (\<lambda>candidate.
       ebind (if candidate = None then Inr False
              else ebind (cell_at b 0 0) (\<lambda>tl.
                if candidate \<noteq> tl then Inr False
                else ebind (cell_at b 2 2) (\<lambda>br. Inr (candidate = br)))) (\<lambda>main.
         if main then Inr candidate
         else ebind (cell_at b 0 2) (\<lambda>tr.
           if candidate \<noteq> tr then Inr None
           else ebind (cell_at b 2 0) (\<lambda>bl.
             if candidate = bl then Inr candidate else Inr None))))"

definition winner :: "board \<Rightarrow> error + cell" where
  "winner b =
     ebind (check_row_wins b) (\<lambda>w.
       if w \<noteq> None then Inr w
       else ebind (check_column_wins b) (\<lambda>w.
         if w \<noteq> None then Inr w
         else ebind (check_diagonal_wins b) (\<lambda>w.
           if w \<noteq> None then Inr w else Inr None)))"

text \<open>\<^verbatim>\<open>all(cell != EMPTY for row in board for cell in row)\<close>\<close>

definition full_board :: "board \<Rightarrow> bool" where
  "full_board b = (if list_all (\<lambda>c. c \<noteq> EMPTY) (concat b) then True else False)"

definition terminal :: "board \<Rightarrow> error + bool" where
  "terminal b =
     ebind (winner b) (\<lambda>w.
       if w \<noteq> None then Inr True else Inr (full_board b))"

definition utility :: "board \<Rightarrow> error + int" where
  "utility b =
     ebind (winner b) (\<lambda>potential_winner.
       if potential_winner = Some X then Inr 1
       else if potential_winner = Some O' then Inr (- 1)
       else Inr 0)"

section \<open>The search: \<^verbatim>\<open>max_value\<close>, \<^verbatim>\<open>min_value\<close>, \<^verbatim>\<open>minimax\<close>\<close>

text \<open>
  The two searches call each other through their loops. That the recursion ends rests on
  one fact about \<^verbatim>\<open>result\<close>, proved first: a call that returns has filled one empty
  cell.
\<close>

lemma ebind_Inr [simp]: "ebind (Inr v) f = f v"
  by (simp add: ebind_def)

lemma ebind_Inl [simp]: "ebind (Inl e) f = Inl e"
  by (simp add: ebind_def)

lemma ebind_cong [fundef_cong]:
  "m = m' \<Longrightarrow> (\<And>v. m' = Inr v \<Longrightarrow> f v = f' v) \<Longrightarrow> ebind m f = ebind m' f'"
  by (auto simp: ebind_def split: sum.splits)

lemma ebind_Inr_iff: "ebind m f = Inr y \<longleftrightarrow> (\<exists>v. m = Inr v \<and> f v = Inr y)"
  by (auto simp: ebind_def split: sum.splits)

lemma py_index_Inr: "py_index n i = Inr k \<Longrightarrow> k < n"
  by (auto simp: py_index_def split: if_splits)

lemma count_list_update_old:
  "j < length xs \<Longrightarrow> xs ! j = c \<Longrightarrow> v \<noteq> c \<Longrightarrow> Suc (count_list (xs[j := v]) c) = count_list xs c"
  by (induction xs arbitrary: j) (auto split: nat.splits)

lemma count_list_update_other:
  "j < length xs \<Longrightarrow> xs ! j \<noteq> c \<Longrightarrow> v \<noteq> c \<Longrightarrow> count_list (xs[j := v]) c = count_list xs c"
  by (induction xs arbitrary: j) (auto split: nat.splits)

lemma count_list_update_new:
  "j < length xs \<Longrightarrow> xs ! j \<noteq> v \<Longrightarrow> count_list (xs[j := v]) v = Suc (count_list xs v)"
  by (induction xs arbitrary: j) (auto split: nat.splits)

lemma sum_list_map_update:
  "k < length xs \<Longrightarrow>
   sum_list (map f (xs[k := y])) + f (xs ! k) = sum_list (map f xs) + (f y :: nat)"
  by (induction xs arbitrary: k) (auto split: nat.splits)

text \<open>A successful \<^verbatim>\<open>result\<close> wrote the mover's mark into one empty cell.\<close>

lemma result_Inr_D:
  assumes "result b a = Inr nb"
  shows "\<exists>k j. py_index (length b) (fst a) = Inr k \<and> py_index (length (b ! k)) (snd a) = Inr j \<and>
    k < length b \<and> j < length (b ! k) \<and> b ! k ! j = None \<and>
    nb = b[k := (b ! k)[j := Some (player b)]]"
proof -
  from assms obtain k j where
    k: "py_index (length b) (fst a) = Inr k" and j: "py_index (length (b ! k)) (snd a) = Inr j"
    and e: "b ! k ! j = None" and nb: "nb = b[k := (b ! k)[j := Some (player b)]]"
    by (auto simp: result_def cell_at_def py_get_def py_set_def ebind_Inr_iff Let_def
        split: if_splits)
  from k j have "k < length b" "j < length (b ! k)" by (auto dest: py_index_Inr)
  with k j e nb show ?thesis by blast
qed

lemma count_mark_result:
  assumes "result b a = Inr nb"
  shows "Suc (count_mark None nb) = count_mark None b"
    and "count_mark (Some (player b)) nb = Suc (count_mark (Some (player b)) b)"
    and "m \<noteq> player b \<Longrightarrow> count_mark (Some m) nb = count_mark (Some m) b"
proof -
  from result_Inr_D[OF assms] obtain k j where kj: "k < length b" "j < length (b ! k)"
    "b ! k ! j = None" "nb = b[k := (b ! k)[j := Some (player b)]]"
    by blast
  let ?r = "(b ! k)[j := Some (player b)]"
  have s: "count_mark c nb + count_list (b ! k) c = count_mark c b + count_list ?r c" for c
    unfolding count_mark_def kj(4)
    using sum_list_map_update[OF kj(1), of "\<lambda>row. count_list row c"] by simp
  have "Suc (count_list ?r None) = count_list (b ! k) None"
    using kj by (intro count_list_update_old) auto
  with s[of None] show "Suc (count_mark None nb) = count_mark None b" by simp
  have "count_list ?r (Some (player b)) = Suc (count_list (b ! k) (Some (player b)))"
    using kj by (intro count_list_update_new) auto
  with s[of "Some (player b)"]
  show "count_mark (Some (player b)) nb = Suc (count_mark (Some (player b)) b)" by simp
  assume "m \<noteq> player b"
  then have "count_list ?r (Some m) = count_list (b ! k) (Some m)"
    using kj by (intro count_list_update_other) auto
  with s[of "Some m"] show "count_mark (Some m) nb = count_mark (Some m) b" by simp
qed

text \<open>
  A score is a Python number: an integer utility, or one of the floats \<^verbatim>\<open>-math.inf\<close>
  and \<^verbatim>\<open>math.inf\<close> that start the two loops. \<open>score_less s t\<close> is \<^verbatim>\<open>s < t\<close>.
\<close>

datatype score = NegInf | Fin int | PosInf

fun score_less :: "score \<Rightarrow> score \<Rightarrow> bool" where
  "score_less NegInf NegInf = False"
| "score_less NegInf _ = True"
| "score_less (Fin i) (Fin j) = (i < j)"
| "score_less (Fin i) PosInf = True"
| "score_less (Fin i) NegInf = False"
| "score_less PosInf _ = False"

text \<open>
  \<^verbatim>\<open>for action in actions(board)\<close> iterates over a Python set, in an order the language
  does not fix. The order is a parameter of the search: a function that lists a set of
  actions. Nothing is assumed about it in the definitions; the theorems ask that it
  \<open>enumerates\<close>, that is, lists every set of cells completely and without repetition.
\<close>

type_synonym iteration = "action set \<Rightarrow> action list"

function max_value :: "iteration \<Rightarrow> board \<Rightarrow> error + (score \<times> action option)"
  and max_value_loop :: "iteration \<Rightarrow> board \<Rightarrow> action list \<Rightarrow> score \<Rightarrow> action option
        \<Rightarrow> error + (score \<times> action option)"
  and min_value :: "iteration \<Rightarrow> board \<Rightarrow> error + (score \<times> action option)"
  and min_value_loop :: "iteration \<Rightarrow> board \<Rightarrow> action list \<Rightarrow> score \<Rightarrow> action option
        \<Rightarrow> error + (score \<times> action option)"
where
  "max_value it b =
     ebind (terminal b) (\<lambda>t.
       if t then ebind (utility b) (\<lambda>u. Inr (Fin u, None))
       else
         let best_score = NegInf; best_action = None in
         ebind (actions b) (\<lambda>acts. max_value_loop it b (it acts) best_score best_action))"
| "max_value_loop it b [] best_score best_action = Inr (best_score, best_action)"
| "max_value_loop it b (action # rest) best_score best_action =
     ebind (result b action) (\<lambda>next_board.
     ebind (min_value it next_board) (\<lambda>r.
       let score_after_O = fst r in
       if score_less best_score score_after_O
       then max_value_loop it b rest score_after_O (Some action)
       else max_value_loop it b rest best_score best_action))"
| "min_value it b =
     ebind (terminal b) (\<lambda>t.
       if t then ebind (utility b) (\<lambda>u. Inr (Fin u, None))
       else
         let best_score = PosInf; best_action = None in
         ebind (actions b) (\<lambda>acts. min_value_loop it b (it acts) best_score best_action))"
| "min_value_loop it b [] best_score best_action = Inr (best_score, best_action)"
| "min_value_loop it b (action # rest) best_score best_action =
     ebind (result b action) (\<lambda>next_board.
     ebind (max_value it next_board) (\<lambda>r.
       let score_after_X = fst r in
       if score_less score_after_X best_score
       then min_value_loop it b rest score_after_X (Some action)
       else min_value_loop it b rest best_score best_action))"
  by pat_completeness auto
termination
proof (relation "inv_image (less_than <*lex*> less_than <*lex*> less_than)
    (\<lambda>x. case x of
       Inl (Inl (it, b)) \<Rightarrow> (count_mark None b, 1, 0)
     | Inl (Inr (it, b, as, s, a)) \<Rightarrow> (count_mark None b, 0, length as)
     | Inr (Inl (it, b)) \<Rightarrow> (count_mark None b, 1, 0)
     | Inr (Inr (it, b, as, s, a)) \<Rightarrow> (count_mark None b, 0, length as))")
qed (auto dest: count_mark_result(1))

text \<open>
  The equations of \<open>max_value\<close> and \<open>min_value\<close> rewrite any call; they are unfolded by
  hand.
\<close>

declare max_value.simps [simp del] min_value.simps [simp del]

definition minimax :: "iteration \<Rightarrow> board \<Rightarrow> error + action option" where
  "minimax it b =
     ebind (terminal b) (\<lambda>t.
       if t then Inr None
       else if player b = X then ebind (max_value it b) (\<lambda>r. Inr (snd r))
       else if player b = O' then ebind (min_value it b) (\<lambda>r. Inr (snd r))
       else Inr None)"

subsection \<open>The search with a limit on the depth of its recursion\<close>

text \<open>
  \<open>max_value\<close> and \<open>min_value\<close> are total functions: their definition was accepted
  with the number of empty cells as the measure that every recursive call decreases. To
  state the bound on the depth, the same four functions are instrumented with a limit
  \<open>d\<close> on the number of nested calls still allowed: a call of \<^verbatim>\<open>min_value\<close> from the loop
  of \<^verbatim>\<open>max_value\<close> (and the reverse) needs \<open>d > 0\<close> and runs with \<open>d - 1\<close>; the result is
  \<open>None\<close> when the limit is hit, \<open>Some r\<close> when the search returned \<open>r\<close> within it.
\<close>

function max_value_lim :: "nat \<Rightarrow> iteration \<Rightarrow> board \<Rightarrow> (error + (score \<times> action option)) option"
  and max_value_loop_lim :: "nat \<Rightarrow> iteration \<Rightarrow> board \<Rightarrow> action list \<Rightarrow> score \<Rightarrow> action option
        \<Rightarrow> (error + (score \<times> action option)) option"
  and min_value_lim :: "nat \<Rightarrow> iteration \<Rightarrow> board \<Rightarrow> (error + (score \<times> action option)) option"
  and min_value_loop_lim :: "nat \<Rightarrow> iteration \<Rightarrow> board \<Rightarrow> action list \<Rightarrow> score \<Rightarrow> action option
        \<Rightarrow> (error + (score \<times> action option)) option"
where
  "max_value_lim d it b =
     (case terminal b of
        Inl e \<Rightarrow> Some (Inl e)
      | Inr t \<Rightarrow>
          if t then Some (ebind (utility b) (\<lambda>u. Inr (Fin u, None)))
          else
            (case actions b of
               Inl e \<Rightarrow> Some (Inl e)
             | Inr acts \<Rightarrow> max_value_loop_lim d it b (it acts) NegInf None))"
| "max_value_loop_lim d it b [] best_score best_action = Some (Inr (best_score, best_action))"
| "max_value_loop_lim d it b (action # rest) best_score best_action =
     (case result b action of
        Inl e \<Rightarrow> Some (Inl e)
      | Inr next_board \<Rightarrow>
          (case d of
             0 \<Rightarrow> None
           | Suc d' \<Rightarrow>
               (case min_value_lim d' it next_board of
                  None \<Rightarrow> None
                | Some (Inl e) \<Rightarrow> Some (Inl e)
                | Some (Inr r) \<Rightarrow>
                    let score_after_O = fst r in
                    if score_less best_score score_after_O
                    then max_value_loop_lim d it b rest score_after_O (Some action)
                    else max_value_loop_lim d it b rest best_score best_action)))"
| "min_value_lim d it b =
     (case terminal b of
        Inl e \<Rightarrow> Some (Inl e)
      | Inr t \<Rightarrow>
          if t then Some (ebind (utility b) (\<lambda>u. Inr (Fin u, None)))
          else
            (case actions b of
               Inl e \<Rightarrow> Some (Inl e)
             | Inr acts \<Rightarrow> min_value_loop_lim d it b (it acts) PosInf None))"
| "min_value_loop_lim d it b [] best_score best_action = Some (Inr (best_score, best_action))"
| "min_value_loop_lim d it b (action # rest) best_score best_action =
     (case result b action of
        Inl e \<Rightarrow> Some (Inl e)
      | Inr next_board \<Rightarrow>
          (case d of
             0 \<Rightarrow> None
           | Suc d' \<Rightarrow>
               (case max_value_lim d' it next_board of
                  None \<Rightarrow> None
                | Some (Inl e) \<Rightarrow> Some (Inl e)
                | Some (Inr r) \<Rightarrow>
                    let score_after_X = fst r in
                    if score_less score_after_X best_score
                    then min_value_loop_lim d it b rest score_after_X (Some action)
                    else min_value_loop_lim d it b rest best_score best_action)))"
  by pat_completeness auto
termination
proof (relation "inv_image (less_than <*lex*> less_than <*lex*> less_than)
    (\<lambda>x. case x of
       Inl (Inl (d, it, b)) \<Rightarrow> (d, 1, 0)
     | Inl (Inr (d, it, b, as, s, a)) \<Rightarrow> (d, 0, length as)
     | Inr (Inl (d, it, b)) \<Rightarrow> (d, 1, 0)
     | Inr (Inr (d, it, b, as, s, a)) \<Rightarrow> (d, 0, length as))")
qed auto

section \<open>\<^verbatim>\<open>result\<close> on a store of list objects\<close>

text \<open>
  In Python a board is a list object whose elements refer to three row objects, and
  \<^verbatim>\<open>result\<close> copies the board with \<^verbatim>\<open>copy.deepcopy\<close> before it assigns to a cell of the
  copy. Whether the caller's board stays as it was depends on what the copy shares with
  the original, so \<^verbatim>\<open>result\<close> is modelled once more on a store of objects. The store
  holds the row objects (lists of marks; a mark is immutable) and the board objects
  (lists of addresses of rows); an address is a position in the store and a new object
  is appended. \<open>board_value\<close> reads the grid an address stands for; \<open>valid_board\<close> says
  that the address and the rows it refers to exist.
\<close>

record store =
  row_objs :: "cell list list"
  board_objs :: "nat list list"

definition board_value :: "store \<Rightarrow> nat \<Rightarrow> board" where
  "board_value st board = map (\<lambda>r. row_objs st ! r) (board_objs st ! board)"

definition valid_board :: "store \<Rightarrow> nat \<Rightarrow> bool" where
  "valid_board st board =
     (board < length (board_objs st) \<and>
      list_all (\<lambda>r. r < length (row_objs st)) (board_objs st ! board))"

text \<open>\<^verbatim>\<open>initial_state\<close> builds three new rows and a new list of them.\<close>

definition initial_state_st :: "store \<Rightarrow> store \<times> nat" where
  "initial_state_st st =
     (let n = length (row_objs st) in
      (\<lparr>row_objs = row_objs st @ [[EMPTY, EMPTY, EMPTY],
                                   [EMPTY, EMPTY, EMPTY],
                                   [EMPTY, EMPTY, EMPTY]],
        board_objs = board_objs st @ [[n, n + 1, n + 2]]\<rparr>,
       length (board_objs st)))"

text \<open>
  \<^verbatim>\<open>copy.deepcopy\<close> of a board: a new list, and for each element the copy of the row
  it refers to. The memo of \<^verbatim>\<open>deepcopy\<close> maps the address of a row already copied to
  its copy, so a row that occurs twice in the board is copied once and occurs twice in
  the copy. The marks are atoms and are not copied.
\<close>

fun copy_rows :: "cell list list \<Rightarrow> (nat \<times> nat) list \<Rightarrow> nat list \<Rightarrow> cell list list \<times> nat list" where
  "copy_rows rows memo [] = (rows, [])"
| "copy_rows rows memo (r # rs) =
     (case map_of memo r of
        Some y \<Rightarrow>
          (let (rows', ys) = copy_rows rows memo rs in (rows', y # ys))
      | None \<Rightarrow>
          (let y = length rows;
               (rows', ys) = copy_rows (rows @ [rows ! r]) ((r, y) # memo) rs
           in (rows', y # ys)))"

definition deepcopy :: "store \<Rightarrow> nat \<Rightarrow> store \<times> nat" where
  "deepcopy st board =
     (let (rows', ys) = copy_rows (row_objs st) [] (board_objs st ! board) in
      (\<lparr>row_objs = rows', board_objs = board_objs st @ [ys]\<rparr>, length (board_objs st)))"

text \<open>
  \<^verbatim>\<open>result\<close>, statement by statement: the test of the cell on the caller's board, the
  deep copy, and the assignment \<^verbatim>\<open>next_board[row][column] = player(board)\<close>, which
  updates one row object of the copy in place.
\<close>

definition result_st :: "store \<Rightarrow> nat \<Rightarrow> action \<Rightarrow> error + store \<times> nat" where
  "result_st st board action =
     (let row = fst action; column = snd action in
      ebind (py_get (board_objs st ! board) row) (\<lambda>r.
      ebind (py_get (row_objs st ! r) column) (\<lambda>c.
        if c \<noteq> EMPTY then Inl InvalidAction
        else
          let (st1, next_board) = deepcopy st board in
          ebind (py_get (board_objs st1 ! next_board) row) (\<lambda>r1.
          ebind (py_set (row_objs st1 ! r1) column (Some (player (board_value st1 board)))) (\<lambda>cs.
            Inr (st1\<lparr>row_objs := (row_objs st1)[r1 := cs]\<rparr>, next_board))))))"

section \<open>The notions of the specification\<close>

text \<open>
  What the properties below are stated with and the source does not define: the shape of
  a board, the iteration orders, the complete lines, sequences of moves, and the game
  value that the search is compared with.

  The board of the specification is a 3 by 3 grid. On such a board no index of the rules
  is out of range.
\<close>

definition wf_board :: "board \<Rightarrow> bool" where
  "wf_board b = (length b = 3 \<and> list_all (\<lambda>row. length row = 3) b)"

definition cells :: "action list" where
  "cells = List.product range3 range3"

definition enumerates :: "iteration \<Rightarrow> bool" where
  "enumerates it = (\<forall>S. S \<subseteq> set cells \<longrightarrow> set (it S) = S \<and> distinct (it S))"

text \<open>One iteration order, used to run the search on examples: row by row.\<close>

definition row_major :: iteration where
  "row_major S = filter (\<lambda>a. a \<in> S) cells"

text \<open>The opponent of a mark.\<close>

fun other :: "mark \<Rightarrow> mark" where
  "other X = O'"
| "other O' = X"

text \<open>
  The eight lines of the grid: three rows, three columns, two diagonals. A mark has a
  complete line on a board when all three cells of some line hold it.
\<close>

definition lines :: "action list list" where
  "lines = [[(0,0),(0,1),(0,2)], [(1,0),(1,1),(1,2)], [(2,0),(2,1),(2,2)],
            [(0,0),(1,0),(2,0)], [(0,1),(1,1),(2,1)], [(0,2),(1,2),(2,2)],
            [(0,0),(1,1),(2,2)], [(0,2),(1,1),(2,0)]]"

definition has_line :: "board \<Rightarrow> mark \<Rightarrow> bool" where
  "has_line b m =
     list_ex (list_all (\<lambda>(row, column). cell_at b row column = Inr (Some m))) lines"

text \<open>
  A finite sequence of calls of \<^verbatim>\<open>result\<close>, each on the board the call before it
  returned; the first raise ends the sequence. The boards it returns from the initial
  board are the reachable boards.
\<close>

fun result_all :: "board \<Rightarrow> action list \<Rightarrow> error + board" where
  "result_all b [] = Inr b"
| "result_all b (a # as) = ebind (result b a) (\<lambda>nb. result_all nb as)"

text \<open>The counts of a board on which the marks alternate: X has as many as O, or one more.\<close>

definition turn_ok :: "board \<Rightarrow> bool" where
  "turn_ok b = (count_mark (Some X) b = count_mark (Some O') b \<or>
                count_mark (Some X) b = Suc (count_mark (Some O') b))"

subsection \<open>The game and its guaranteed utility\<close>

text \<open>
  The specification's names for what the rules return on a board: the set of legal
  moves, the board after a move, whether the game is over, and the utility. They read
  off the results of \<^verbatim>\<open>actions\<close>, \<^verbatim>\<open>result\<close>, \<^verbatim>\<open>terminal\<close> and \<^verbatim>\<open>utility\<close>; on a 3 by 3
  board none of the four raises (lemmas \<open>actions_legal_moves\<close>, \<open>legal_move_result\<close>,
  \<open>terminal_wf\<close>, \<open>utility_wf\<close> below).
\<close>

definition legal_moves :: "board \<Rightarrow> action set" where
  "legal_moves b = (case actions b of Inr acts \<Rightarrow> acts | Inl _ \<Rightarrow> {})"

definition apply_move :: "board \<Rightarrow> action \<Rightarrow> board" where
  "apply_move b a = (case result b a of Inr nb \<Rightarrow> nb | Inl _ \<Rightarrow> b)"

definition is_terminal :: "board \<Rightarrow> bool" where
  "is_terminal b = (terminal b = Inr True)"

definition utility_of :: "board \<Rightarrow> int" where
  "utility_of b = (case utility b of Inr u \<Rightarrow> u | Inl _ \<Rightarrow> 0)"

lemma actions_loop_mem:
  "actions_loop b ms acc = Inr S \<Longrightarrow> a \<in> S \<Longrightarrow>
   a \<in> acc \<or> (a \<in> set ms \<and> cell_at b (fst a) (snd a) = Inr None)"
proof (induction ms arbitrary: acc)
  case Nil
  then show ?case by simp
next
  case (Cons m ms)
  obtain row column where m: "m = (row, column)" by (cases m)
  from Cons.prems(1) obtain c where c: "cell_at b row column = Inr c"
    and l: "actions_loop b ms (if c = None then insert (row, column) acc else acc) = Inr S"
    unfolding m by (auto simp: ebind_Inr_iff)
  from Cons.IH[OF l Cons.prems(2)] c show ?case
    unfolding m by (auto split: if_splits)
qed

lemma cell_at_None_result:
  "cell_at b row column = Inr None \<Longrightarrow> \<exists>nb. result b (row, column) = Inr nb"
  by (auto simp: result_def cell_at_def py_get_def py_set_def ebind_Inr_iff)

lemma legal_moves_result:
  assumes "a \<in> legal_moves b"
  shows "\<exists>nb. result b a = Inr nb"
proof -
  from assms obtain S where "actions b = Inr S" "a \<in> S"
    by (auto simp: legal_moves_def split: sum.splits)
  then have "cell_at b (fst a) (snd a) = Inr None"
    using actions_loop_mem[of b _ "{}" S a] by (auto simp: actions_def)
  from cell_at_None_result[OF this] show ?thesis by simp
qed

lemma legal_moves_decreases:
  assumes "a \<in> legal_moves b"
  shows "count_mark None (apply_move b a) < count_mark None b"
proof -
  from legal_moves_result[OF assms] obtain nb where nb: "result b a = Inr nb" by blast
  from count_mark_result(1)[OF nb] show ?thesis by (simp add: apply_move_def nb)
qed

text \<open>
  The guaranteed utility of a board for the player who moves on it, after the
  specification: on a terminal board the utility; where the maximising player X moves,
  the greatest guaranteed utility over the legal moves, the minimising player O replying;
  where O moves, the least, X replying. This is the value of the game tree under optimal
  play of both sides; it does not mention scores, loops or an iteration order. On a
  board where X has as many marks as O or one more (\<open>turn_ok\<close>), the mover of the
  definition is the player that \<^verbatim>\<open>player\<close> returns, before and after every move (lemma
  \<open>turn_ok_result\<close> below).
\<close>

function guaranteed :: "mark \<Rightarrow> board \<Rightarrow> int" where
  "guaranteed p b =
     (if is_terminal b then utility_of b
      else if p = X then Max ((\<lambda>a. guaranteed O' (apply_move b a)) ` legal_moves b)
      else Min ((\<lambda>a. guaranteed X (apply_move b a)) ` legal_moves b))"
  by pat_completeness auto
termination
  by (relation "measure (\<lambda>(p, b). count_mark None b)") (auto intro: legal_moves_decreases)

declare guaranteed.simps [simp del]

text \<open>
  The game loop of the specification's scenario: ask \<^verbatim>\<open>minimax\<close> for a move, apply it
  with \<^verbatim>\<open>result\<close>, repeat until \<^verbatim>\<open>minimax\<close> returns \<^verbatim>\<open>None\<close>; the value is the last
  board. Every round fills a cell, so the loop ends.
\<close>

function play :: "iteration \<Rightarrow> board \<Rightarrow> error + board" where
  "play it b =
     (case minimax it b of
        Inl e \<Rightarrow> Inl e
      | Inr None \<Rightarrow> Inr b
      | Inr (Some a) \<Rightarrow>
          (case result b a of
             Inl e \<Rightarrow> Inl e
           | Inr nb \<Rightarrow> play it nb))"
  by pat_completeness auto
termination
  by (relation "measure (\<lambda>(it, b). count_mark None b)") (auto dest: count_mark_result(1))

subsection \<open>Definitions used in the proofs\<close>

text \<open>Three cells hold the same mark: the test of each line in \<^verbatim>\<open>winner\<close>.\<close>

definition line3 :: "cell \<Rightarrow> cell \<Rightarrow> cell \<Rightarrow> bool" where
  "line3 x y z = (x \<noteq> None \<and> x = y \<and> x = z)"

text \<open>
  The invariant of the loop of \<^verbatim>\<open>max_value\<close>: after the actions in \<open>S\<close>, the pair
  \<^verbatim>\<open>(best_score, best_action)\<close> is the start value if \<open>S\<close> is empty, and otherwise an
  action of \<open>S\<close> of greatest value \<open>v\<close> with that value. \<open>best_min\<close> is the same for
  \<^verbatim>\<open>min_value\<close>.
\<close>

definition best_max :: "(action \<Rightarrow> int) \<Rightarrow> action set \<Rightarrow> score \<Rightarrow> action option \<Rightarrow> bool" where
  "best_max v S bs ba =
     (if S = {} then bs = NegInf \<and> ba = None
      else \<exists>m \<in> S. bs = Fin (v m) \<and> ba = Some m \<and> (\<forall>a \<in> S. v a \<le> v m))"

definition best_min :: "(action \<Rightarrow> int) \<Rightarrow> action set \<Rightarrow> score \<Rightarrow> action option \<Rightarrow> bool" where
  "best_min v S bs ba =
     (if S = {} then bs = PosInf \<and> ba = None
      else \<exists>m \<in> S. bs = Fin (v m) \<and> ba = Some m \<and> (\<forall>a \<in> S. v m \<le> v a))"

text \<open>
  \<open>forces k prover ord mover b\<close> checks, by a search that stops at the first success or
  failure, that the \<open>prover\<close> can hold the bound \<open>k\<close> on board \<open>b\<close> with \<open>mover\<close> to
  move: at least \<open>k\<close> if the prover is X, at most \<open>k\<close> if the prover is O. The prover
  tries the moves in the order \<open>ord\<close> until one holds the bound; the opponent's moves
  must all hold it. It is used to evaluate the guaranteed utility of concrete boards
  without walking the whole game tree.
\<close>

function forces :: "int \<Rightarrow> mark \<Rightarrow> action list \<Rightarrow> mark \<Rightarrow> board \<Rightarrow> bool"
  and forces_some :: "int \<Rightarrow> mark \<Rightarrow> action list \<Rightarrow> mark \<Rightarrow> board \<Rightarrow> action list \<Rightarrow> bool"
  and forces_all :: "int \<Rightarrow> mark \<Rightarrow> action list \<Rightarrow> mark \<Rightarrow> board \<Rightarrow> action list \<Rightarrow> bool"
where
  "forces k prover ord mover b =
     (case terminal b of
        Inl e \<Rightarrow> False
      | Inr t \<Rightarrow>
          if t then (case utility b of
                       Inl e \<Rightarrow> False
                     | Inr u \<Rightarrow> if prover = X then k \<le> u else u \<le> k)
          else if mover = prover then forces_some k prover ord mover b ord
          else forces_all k prover ord mover b cells)"
| "forces_some k prover ord mover b [] = False"
| "forces_some k prover ord mover b (a # as) =
     (case result b a of
        Inl e \<Rightarrow> forces_some k prover ord mover b as
      | Inr nb \<Rightarrow> if forces k prover ord (other mover) nb then True
                 else forces_some k prover ord mover b as)"
| "forces_all k prover ord mover b [] = True"
| "forces_all k prover ord mover b (a # as) =
     (case result b a of
        Inl e \<Rightarrow> forces_all k prover ord mover b as
      | Inr nb \<Rightarrow> if forces k prover ord (other mover) nb
                 then forces_all k prover ord mover b as
                 else False)"
  by pat_completeness auto
termination
proof (relation "inv_image (less_than <*lex*> less_than <*lex*> less_than)
    (\<lambda>x. case x of
       Inl (k, p, ord, mv, b) \<Rightarrow> (count_mark None b, 1, 0)
     | Inr (Inl (k, p, ord, mv, b, as)) \<Rightarrow> (count_mark None b, 0, length as)
     | Inr (Inr (k, p, ord, mv, b, as)) \<Rightarrow> (count_mark None b, 0, length as))")
qed (auto dest: count_mark_result(1))

section \<open>The rules on a board given cell by cell\<close>

text \<open>
  A 3 by 3 board is a list of three lists of three cells, and on such a list each rule
  has a closed form in the nine cells. The later proofs and the evaluation of concrete
  boards go through these forms.
\<close>

lemma length_3_conv: "length xs = 3 \<longleftrightarrow> (\<exists>x y z. xs = [x, y, z])"
  by (auto simp: numeral_3_eq_3 length_Suc_conv)

lemma wf_board_lit:
  "wf_board b \<longleftrightarrow> (\<exists>a b' c d e f g h i. b = [[a, b', c], [d, e, f], [g, h, i]])"
  unfolding wf_board_def by (auto simp: length_3_conv)

lemma cell_at_lit:
  "cell_at [[a,b,c],[d,e,f],[g,h,i]] 0 0 = Inr a"
  "cell_at [[a,b,c],[d,e,f],[g,h,i]] 0 1 = Inr b"
  "cell_at [[a,b,c],[d,e,f],[g,h,i]] 0 2 = Inr c"
  "cell_at [[a,b,c],[d,e,f],[g,h,i]] 1 0 = Inr d"
  "cell_at [[a,b,c],[d,e,f],[g,h,i]] 1 1 = Inr e"
  "cell_at [[a,b,c],[d,e,f],[g,h,i]] 1 2 = Inr f"
  "cell_at [[a,b,c],[d,e,f],[g,h,i]] 2 0 = Inr g"
  "cell_at [[a,b,c],[d,e,f],[g,h,i]] 2 1 = Inr h"
  "cell_at [[a,b,c],[d,e,f],[g,h,i]] 2 2 = Inr i"
  by (simp_all add: cell_at_def py_get_def py_index_def)

lemma line3_not_None: "line3 x y z \<Longrightarrow> x \<noteq> None"
  by (auto simp add: line3_def)

lemma line3_iff: "line3 x y z \<longleftrightarrow> (\<exists>m. x = Some m \<and> y = Some m \<and> z = Some m)"
  by (auto simp: line3_def)

lemma check_row_wins_loop_step:
  "cell_at b row 0 = Inr x \<Longrightarrow> cell_at b row 1 = Inr y \<Longrightarrow> cell_at b row 2 = Inr z \<Longrightarrow>
   check_row_wins_loop b (row # rest) =
     (if line3 x y z then Inr x else check_row_wins_loop b rest)"
  by (auto simp add: line3_def)

lemma check_column_wins_loop_step:
  "cell_at b 0 col = Inr x \<Longrightarrow> cell_at b 1 col = Inr y \<Longrightarrow> cell_at b 2 col = Inr z \<Longrightarrow>
   check_column_wins_loop b (col # rest) =
     (if line3 x y z then Inr x else check_column_wins_loop b rest)"
  by (auto simp add: line3_def)

lemma check_row_wins_lit:
  "check_row_wins [[a,b,c],[d,e,f],[g,h,i]] =
     (if line3 a b c then Inr a else if line3 d e f then Inr d
      else if line3 g h i then Inr g else Inr None)"
  unfolding check_row_wins_def range3_def
  by (simp only: check_row_wins_loop_step[OF cell_at_lit(1,2,3)]
      check_row_wins_loop_step[OF cell_at_lit(4,5,6)]
      check_row_wins_loop_step[OF cell_at_lit(7,8,9)] check_row_wins_loop.simps(1))

lemma check_column_wins_lit:
  "check_column_wins [[a,b,c],[d,e,f],[g,h,i]] =
     (if line3 a d g then Inr a else if line3 b e h then Inr b
      else if line3 c f i then Inr c else Inr None)"
  unfolding check_column_wins_def range3_def
  by (simp only: check_column_wins_loop_step[OF cell_at_lit(1,4,7)]
      check_column_wins_loop_step[OF cell_at_lit(2,5,8)]
      check_column_wins_loop_step[OF cell_at_lit(3,6,9)] check_column_wins_loop.simps(1))

lemma check_diagonal_wins_lit:
  "check_diagonal_wins [[a,b,c],[d,e,f],[g,h,i]] =
     (if line3 e a i \<or> line3 e c g then Inr e else Inr None)"
  by (auto simp add: check_diagonal_wins_def cell_at_lit line3_def)

lemma winner_lit:
  "winner [[a,b,c],[d,e,f],[g,h,i]] =
     (if line3 a b c then Inr a else if line3 d e f then Inr d else if line3 g h i then Inr g
      else if line3 a d g then Inr a else if line3 b e h then Inr b
      else if line3 c f i then Inr c
      else if line3 e a i \<or> line3 e c g then Inr e else Inr None)"
  unfolding winner_def check_row_wins_lit check_column_wins_lit check_diagonal_wins_lit
  by (cases "line3 a b c"; cases "line3 d e f"; cases "line3 g h i"; cases "line3 a d g";
      cases "line3 b e h"; cases "line3 c f i"; cases "line3 e a i"; cases "line3 e c g";
      simp add: line3_not_None)

lemma winner_total: "wf_board b \<Longrightarrow> \<exists>w. winner b = Inr w"
  unfolding wf_board_lit by (auto simp: winner_lit)

lemma result_lit:
  "result [[a,b,c],[d,e,f],[g,h,i]] (0,0) = (if a = None then Inr [[Some (player [[a,b,c],[d,e,f],[g,h,i]]),b,c],[d,e,f],[g,h,i]] else Inl InvalidAction)"
  "result [[a,b,c],[d,e,f],[g,h,i]] (0,1) = (if b = None then Inr [[a,Some (player [[a,b,c],[d,e,f],[g,h,i]]),c],[d,e,f],[g,h,i]] else Inl InvalidAction)"
  "result [[a,b,c],[d,e,f],[g,h,i]] (0,2) = (if c = None then Inr [[a,b,Some (player [[a,b,c],[d,e,f],[g,h,i]])],[d,e,f],[g,h,i]] else Inl InvalidAction)"
  "result [[a,b,c],[d,e,f],[g,h,i]] (1,0) = (if d = None then Inr [[a,b,c],[Some (player [[a,b,c],[d,e,f],[g,h,i]]),e,f],[g,h,i]] else Inl InvalidAction)"
  "result [[a,b,c],[d,e,f],[g,h,i]] (1,1) = (if e = None then Inr [[a,b,c],[d,Some (player [[a,b,c],[d,e,f],[g,h,i]]),f],[g,h,i]] else Inl InvalidAction)"
  "result [[a,b,c],[d,e,f],[g,h,i]] (1,2) = (if f = None then Inr [[a,b,c],[d,e,Some (player [[a,b,c],[d,e,f],[g,h,i]])],[g,h,i]] else Inl InvalidAction)"
  "result [[a,b,c],[d,e,f],[g,h,i]] (2,0) = (if g = None then Inr [[a,b,c],[d,e,f],[Some (player [[a,b,c],[d,e,f],[g,h,i]]),h,i]] else Inl InvalidAction)"
  "result [[a,b,c],[d,e,f],[g,h,i]] (2,1) = (if h = None then Inr [[a,b,c],[d,e,f],[g,Some (player [[a,b,c],[d,e,f],[g,h,i]]),i]] else Inl InvalidAction)"
  "result [[a,b,c],[d,e,f],[g,h,i]] (2,2) = (if i = None then Inr [[a,b,c],[d,e,f],[g,h,Some (player [[a,b,c],[d,e,f],[g,h,i]])]] else Inl InvalidAction)"
  by (simp_all add: result_def cell_at_lit py_get_def py_set_def py_index_def)

lemma range_cases:
  "(row::int) \<in> {0, 1, 2} \<Longrightarrow> (column::int) \<in> {0, 1, 2} \<Longrightarrow>
   (row, column) \<in> {(0,0),(0,1),(0,2),(1,0),(1,1),(1,2),(2,0),(2,1),(2,2)}"
  by auto

text \<open>Rewrite rules that evaluate the rules on a board given cell by cell.\<close>

lemmas board_eval = terminal_def utility_def winner_lit line3_def full_board_def result_lit
  player_def count_mark_def

lemma wf_initial_state: "wf_board initial_state"
  by (simp add: initial_state_def wf_board_def)

section \<open>\<^verbatim>\<open>result\<close> raises exactly on an occupied cell\<close>

text \<open>
  Claim C5. For every 3 by 3 board \<open>b\<close> and every action with row and column in
  \<open>{0, 1, 2}\<close>, \<^verbatim>\<open>result\<close> raises its exception (\<open>InvalidAction\<close>) if and only if the
  cell of \<open>b\<close> at the action is not empty; when the cell is empty the call returns a
  board and raises nothing.
\<close>

theorem result_raises_iff_occupied:
  assumes "wf_board b" and "row \<in> {0, 1, 2}" and "column \<in> {0, 1, 2}"
  shows "\<exists>c. cell_at b row column = Inr c \<and>
             (result b (row, column) = Inl InvalidAction \<longleftrightarrow> c \<noteq> EMPTY) \<and>
             (c = EMPTY \<longrightarrow> (\<exists>nb. result b (row, column) = Inr nb))"
proof -
  from assms(1) obtain a b' c d e f g h i where b: "b = [[a, b', c], [d, e, f], [g, h, i]]"
    unfolding wf_board_lit by blast
  from range_cases[OF assms(2,3)] show ?thesis
    unfolding b by (auto simp: cell_at_lit result_lit)
qed

theorem result_raises_iff_occupied_witness:
  "wf_board [[Some X, None, None], [None, Some O', None], [None, None, None]] \<and>
   (0::int) \<in> {0, 1, 2} \<and> (1::int) \<in> {0, 1, 2} \<and>
   cell_at [[Some X, None, None], [None, Some O', None], [None, None, None]] 1 1
     = Inr (Some O') \<and>
   result [[Some X, None, None], [None, Some O', None], [None, None, None]] (1, 1)
     = Inl InvalidAction \<and>
   cell_at [[Some X, None, None], [None, Some O', None], [None, None, None]] 0 1
     = Inr EMPTY \<and>
   (\<exists>nb. result [[Some X, None, None], [None, Some O', None], [None, None, None]] (0, 1)
     = Inr nb)"
proof -
  let ?B = "[[Some X, None, None], [None, Some O', None], [None, None, None]]"
  have w: "wf_board ?B" by (simp add: wf_board_def)
  have r0: "(0::int) \<in> {0, 1, 2}" and r1: "(1::int) \<in> {0, 1, 2}" by simp_all
  have c11: "cell_at ?B 1 1 = Inr (Some O')" and c01: "cell_at ?B 0 1 = Inr EMPTY"
    by (simp_all add: cell_at_lit)
  from result_raises_iff_occupied[OF w r1 r1] c11
  have occupied: "result ?B (1, 1) = Inl InvalidAction" by auto
  from result_raises_iff_occupied[OF w r0 r1] c01
  have empty: "\<exists>nb. result ?B (0, 1) = Inr nb" by auto
  from w r0 r1 c11 occupied c01 empty show ?thesis by (intro conjI)
qed

section \<open>\<^verbatim>\<open>winner\<close> and the complete lines\<close>

lemma has_line_lit:
  "has_line [[a,b,c],[d,e,f],[g,h,i]] m \<longleftrightarrow>
     a = Some m \<and> b = Some m \<and> c = Some m \<or> d = Some m \<and> e = Some m \<and> f = Some m \<or>
     g = Some m \<and> h = Some m \<and> i = Some m \<or> a = Some m \<and> d = Some m \<and> g = Some m \<or>
     b = Some m \<and> e = Some m \<and> h = Some m \<or> c = Some m \<and> f = Some m \<and> i = Some m \<or>
     a = Some m \<and> e = Some m \<and> i = Some m \<or> c = Some m \<and> e = Some m \<and> g = Some m"
  by (simp add: has_line_def lines_def cell_at_lit)

lemma winner_Some_has_line:
  assumes "wf_board b" and "winner b = Inr (Some m)"
  shows "has_line b m"
proof -
  from assms(1) obtain a b' c d e f g h i where b: "b = [[a, b', c], [d, e, f], [g, h, i]]"
    unfolding wf_board_lit by blast
  from assms(2) show ?thesis
    unfolding b winner_lit has_line_lit line3_iff
    by (auto split: if_splits)
qed

lemma winner_None_no_line:
  assumes "wf_board b" and "winner b = Inr None"
  shows "\<not> has_line b m"
proof -
  from assms(1) obtain a b' c d e f g h i where b: "b = [[a, b', c], [d, e, f], [g, h, i]]"
    unfolding wf_board_lit by blast
  from assms(2) have "\<not> line3 a b' c" "\<not> line3 d e f" "\<not> line3 g h i" "\<not> line3 a d g"
    "\<not> line3 b' e h" "\<not> line3 c f i" "\<not> line3 e a i" "\<not> line3 e c g"
    unfolding b winner_lit by (auto split: if_splits dest: line3_not_None)
  then show ?thesis
    unfolding b has_line_lit line3_iff by blast
qed

lemma has_line_exclusive_winner:
  assumes "wf_board b" and "has_line b m" and "\<not> has_line b (other m)"
  shows "winner b = Inr (Some m)"
proof -
  from winner_total[OF assms(1)] obtain w where w: "winner b = Inr w" by blast
  show ?thesis
  proof (cases w)
    case None
    with w winner_None_no_line[OF assms(1)] assms(2) show ?thesis by blast
  next
    case (Some m')
    with w winner_Some_has_line[OF assms(1)] have "has_line b m'" by blast
    with assms(3) have "m' = m" by (cases m; cases m') auto
    with w Some show ?thesis by simp
  qed
qed

lemma check_diagonal_wins_Some:
  assumes "wf_board b"
  shows "check_diagonal_wins b = Inr (Some m) \<longleftrightarrow>
     cell_at b 1 1 = Inr (Some m) \<and>
     (cell_at b 0 0 = Inr (Some m) \<and> cell_at b 2 2 = Inr (Some m) \<or>
      cell_at b 0 2 = Inr (Some m) \<and> cell_at b 2 0 = Inr (Some m))"
proof -
  from assms(1) obtain a b' c d e f g h i where b: "b = [[a, b', c], [d, e, f], [g, h, i]]"
    unfolding wf_board_lit by blast
  show ?thesis
    unfolding b check_diagonal_wins_lit cell_at_lit line3_iff by auto
qed

lemma check_diagonal_wins_total:
  "wf_board b \<Longrightarrow> \<exists>w. check_diagonal_wins b = Inr w"
  unfolding wf_board_lit by (auto simp: check_diagonal_wins_lit)

text \<open>
  Claim C2, amended. On every 3 by 3 board \<^verbatim>\<open>winner\<close> returns without raising; it
  returns \<^verbatim>\<open>None\<close> if and only if no mark has a complete line, and a mark it returns has
  a complete line. On a board where at most one of the two marks has a complete line it
  returns the mark \<open>m\<close> if and only if \<open>m\<close> has a complete line. The diagonal check
  returns \<open>m\<close> if and only if the centre holds \<open>m\<close> and either both corners of the main
  diagonal or both corners of the anti-diagonal hold \<open>m\<close>; the centre is non-empty in
  both cases.
\<close>

theorem winner_complete_line:
  assumes "wf_board b"
  shows "(\<exists>w. winner b = Inr w) \<and>
         (winner b = Inr None \<longleftrightarrow> \<not> has_line b X \<and> \<not> has_line b O') \<and>
         (winner b = Inr (Some m) \<longrightarrow> has_line b m) \<and>
         (\<not> (has_line b X \<and> has_line b O') \<longrightarrow>
            (winner b = Inr (Some m) \<longleftrightarrow> has_line b m)) \<and>
         (\<exists>w. check_diagonal_wins b = Inr w) \<and>
         (check_diagonal_wins b = Inr (Some m) \<longleftrightarrow>
            cell_at b 1 1 = Inr (Some m) \<and>
            (cell_at b 0 0 = Inr (Some m) \<and> cell_at b 2 2 = Inr (Some m) \<or>
             cell_at b 0 2 = Inr (Some m) \<and> cell_at b 2 0 = Inr (Some m)))"
proof -
  from winner_total[OF assms] obtain w where w: "winner b = Inr w" by blast
  have none: "winner b = Inr None \<longleftrightarrow> \<not> has_line b X \<and> \<not> has_line b O'"
  proof
    assume "winner b = Inr None"
    then show "\<not> has_line b X \<and> \<not> has_line b O'"
      using winner_None_no_line[OF assms] by blast
  next
    assume n: "\<not> has_line b X \<and> \<not> has_line b O'"
    show "winner b = Inr None"
    proof (cases w)
      case None
      with w show ?thesis by simp
    next
      case (Some m')
      with w winner_Some_has_line[OF assms] have "has_line b m'" by blast
      with n show ?thesis by (cases m') auto
    qed
  qed
  have some: "winner b = Inr (Some m) \<longrightarrow> has_line b m"
    using winner_Some_has_line[OF assms] by blast
  have excl: "\<not> (has_line b X \<and> has_line b O') \<longrightarrow>
      (winner b = Inr (Some m) \<longleftrightarrow> has_line b m)"
    using winner_Some_has_line[OF assms, of m] has_line_exclusive_winner[OF assms, of m]
    by (cases m) auto
  from w none some excl check_diagonal_wins_total[OF assms] check_diagonal_wins_Some[OF assms]
  show ?thesis by blast
qed

theorem winner_complete_line_witness:
  "wf_board [[None, None, Some X], [Some O', Some X, None], [Some X, None, Some O']] \<and>
   winner [[None, None, Some X], [Some O', Some X, None], [Some X, None, Some O']] = Inr (Some X) \<and>
   has_line [[None, None, Some X], [Some O', Some X, None], [Some X, None, Some O']] X \<and>
   \<not> has_line [[None, None, Some X], [Some O', Some X, None], [Some X, None, Some O']] O' \<and>
   check_diagonal_wins [[None, None, Some X], [Some O', Some X, None], [Some X, None, Some O']]
     = Inr (Some X)"
proof -
  have w: "wf_board [[None, None, Some X], [Some O', Some X, None], [Some X, None, Some O']]"
    by (simp add: wf_board_def)
  show ?thesis
    using w winner_complete_line[OF w, of X]
    by (simp add: has_line_lit cell_at_lit)
qed

text \<open>
  As stated for every board and every mark, the equivalence of C2 fails where both marks
  have a complete line: the rows are checked from the top and the first complete one is
  returned. The board below is returned by six calls of \<^verbatim>\<open>result\<close> from the initial
  board; O has a complete line on it and \<^verbatim>\<open>winner\<close> returns X.
\<close>

theorem winner_two_lines_counterexample:
  "result_all initial_state [(0, 0), (1, 0), (0, 1), (1, 1), (0, 2), (1, 2)] =
     Inr [[Some X, Some X, Some X], [Some O', Some O', Some O'], [None, None, None]] \<and>
   has_line [[Some X, Some X, Some X], [Some O', Some O', Some O'], [None, None, None]] O' \<and>
   winner [[Some X, Some X, Some X], [Some O', Some O', Some O'], [None, None, None]]
     = Inr (Some X)"
  by (simp add: has_line_lit winner_lit line3_def initial_state_def result_lit player_def
      count_mark_def)

section \<open>\<^verbatim>\<open>utility\<close>\<close>

text \<open>
  Claim C7. For every 3 by 3 board on which \<^verbatim>\<open>terminal\<close> is true, \<^verbatim>\<open>utility\<close> returns
  1 if \<^verbatim>\<open>winner\<close> is X, -1 if \<^verbatim>\<open>winner\<close> is O, and 0 otherwise; the value is one of
  -1, 0, 1.
\<close>

theorem utility_of_terminal:
  assumes "wf_board b" and "terminal b = Inr True"
  shows "\<exists>w. winner b = Inr w \<and>
             utility b = Inr (if w = Some X then 1 else if w = Some O' then - 1 else 0) \<and>
             utility b \<in> {Inr (- 1), Inr 0, Inr 1}"
proof -
  from winner_total[OF assms(1)] obtain w where w: "winner b = Inr w" by blast
  then show ?thesis by (simp add: utility_def)
qed

theorem utility_of_terminal_witness:
  "wf_board [[Some O', Some X, Some X], [None, Some O', None], [Some X, None, Some O']] \<and>
   terminal [[Some O', Some X, Some X], [None, Some O', None], [Some X, None, Some O']] = Inr True \<and>
   winner [[Some O', Some X, Some X], [None, Some O', None], [Some X, None, Some O']]
     = Inr (Some O') \<and>
   utility [[Some O', Some X, Some X], [None, Some O', None], [Some X, None, Some O']]
     = Inr (- 1)"
proof -
  have w: "wf_board [[Some O', Some X, Some X], [None, Some O', None], [Some X, None, Some O']]"
    by (simp add: wf_board_def)
  have t: "terminal [[Some O', Some X, Some X], [None, Some O', None], [Some X, None, Some O']]
      = Inr True"
    by (simp add: terminal_def winner_lit line3_def)
  show ?thesis
    using w t utility_of_terminal[OF w t] by (auto simp: winner_lit line3_def)
qed

text \<open>
  Claim C10. \<^verbatim>\<open>utility\<close> returns on every 3 by 3 board, terminal or not, without
  raising, and returns 0 whenever \<^verbatim>\<open>winner\<close> returns \<^verbatim>\<open>None\<close>.
\<close>

theorem utility_total:
  assumes "wf_board b"
  shows "(\<exists>u. utility b = Inr u) \<and> (winner b = Inr None \<longrightarrow> utility b = Inr 0)"
proof -
  from winner_total[OF assms(1)] obtain w where w: "winner b = Inr w" by blast
  then show ?thesis by (simp add: utility_def)
qed

theorem utility_total_witness:
  "wf_board [[Some X, None, None], [None, Some O', None], [None, None, None]] \<and>
   terminal [[Some X, None, None], [None, Some O', None], [None, None, None]] = Inr False \<and>
   winner [[Some X, None, None], [None, Some O', None], [None, None, None]] = Inr None \<and>
   utility [[Some X, None, None], [None, Some O', None], [None, None, None]] = Inr 0"
proof -
  have w: "wf_board [[Some X, None, None], [None, Some O', None], [None, None, None]]"
    by (simp add: wf_board_def)
  have n: "winner [[Some X, None, None], [None, Some O', None], [None, None, None]] = Inr None"
    by (simp add: winner_lit line3_def)
  show ?thesis
    using w n utility_total[OF w] by (simp add: terminal_def full_board_def)
qed

section \<open>The counts of marks on reachable boards\<close>

lemma player_cases: "player b = X \<and> count_mark (Some X) b = count_mark (Some O') b \<or>
  player b = O' \<and> count_mark (Some X) b \<noteq> count_mark (Some O') b"
  by (simp add: player_def Let_def)

lemma turn_ok_result:
  assumes "turn_ok b" and "result b a = Inr nb"
  shows "turn_ok nb \<and> player nb = other (player b)"
proof (cases "player b")
  case X
  with player_cases[of b] have eq: "count_mark (Some X) b = count_mark (Some O') b" by auto
  from count_mark_result(2)[OF assms(2)] count_mark_result(3)[OF assms(2), of O'] X eq
  show ?thesis by (simp add: turn_ok_def player_def)
next
  case O'
  with player_cases[of b] assms(1)
  have eq: "count_mark (Some X) b = Suc (count_mark (Some O') b)" by (auto simp: turn_ok_def)
  from count_mark_result(2)[OF assms(2)] count_mark_result(3)[OF assms(2), of X] O' eq
  show ?thesis by (simp add: turn_ok_def player_def)
qed

lemma turn_ok_result_all:
  "turn_ok b \<Longrightarrow> result_all b as = Inr b' \<Longrightarrow> turn_ok b'"
proof (induction as arbitrary: b)
  case Nil
  then show ?case by simp
next
  case (Cons a as)
  from Cons.prems(2) obtain nb where nb: "result b a = Inr nb" "result_all nb as = Inr b'"
    by (auto simp: ebind_Inr_iff)
  from turn_ok_result[OF Cons.prems(1) nb(1)] have "turn_ok nb" by simp
  from Cons.IH[OF this nb(2)] show ?case .
qed

text \<open>
  Claim C9. On every board reached from the initial board by a finite sequence of calls
  of \<^verbatim>\<open>result\<close> that return, the number of X marks minus the number of O marks is 0
  or 1.
\<close>

theorem reachable_counts:
  assumes "result_all initial_state as = Inr b"
  shows "int (count_mark (Some X) b) - int (count_mark (Some O') b) \<in> {0, 1}"
proof -
  have "turn_ok initial_state"
    by (simp add: turn_ok_def initial_state_def count_mark_def)
  from turn_ok_result_all[OF this assms] show ?thesis
    by (auto simp: turn_ok_def)
qed

theorem reachable_counts_witness:
  "result_all initial_state [(1, 1), (0, 0), (2, 1)] =
     Inr [[Some O', None, None], [None, Some X, None], [None, Some X, None]] \<and>
   int (count_mark (Some X) [[Some O', None, None], [None, Some X, None], [None, Some X, None]])
     - int (count_mark (Some O') [[Some O', None, None], [None, Some X, None], [None, Some X, None]])
     = 1"
proof -
  have r: "result_all initial_state [(1, 1), (0, 0), (2, 1)] =
     Inr [[Some O', None, None], [None, Some X, None], [None, Some X, None]]"
    by (simp add: initial_state_def result_lit player_def count_mark_def)
  show ?thesis
    using r reachable_counts[OF r] by (simp add: count_mark_def)
qed

section \<open>Termination of the search and the depth of its recursion\<close>

lemma max_value_loop_lim_eq:
  assumes "\<And>a nb. a \<in> set as \<Longrightarrow> result b a = Inr nb \<Longrightarrow>
             \<exists>d'. d = Suc d' \<and> min_value_lim d' it nb = Some (min_value it nb)"
  shows "max_value_loop_lim d it b as bs ba = Some (max_value_loop it b as bs ba)"
  supply max_value_lim.simps [simp del] min_value_lim.simps [simp del]
  using assms
proof (induction as arbitrary: bs ba)
  case Nil
  show ?case by simp
next
  case (Cons a as)
  show ?case
  proof (cases "result b a")
    case (Inl e)
    then show ?thesis by simp
  next
    case (Inr nb)
    from Cons.prems[OF _ Inr] obtain d' where d: "d = Suc d'"
      and m: "min_value_lim d' it nb = Some (min_value it nb)" by auto
    have ih: "max_value_loop_lim d it b as s x = Some (max_value_loop it b as s x)" for s x
      by (rule Cons.IH) (use Cons.prems in auto)
    show ?thesis
      by (cases "min_value it nb") (simp_all add: Inr d m ih[unfolded d] Let_def)
  qed
qed

lemma min_value_loop_lim_eq:
  assumes "\<And>a nb. a \<in> set as \<Longrightarrow> result b a = Inr nb \<Longrightarrow>
             \<exists>d'. d = Suc d' \<and> max_value_lim d' it nb = Some (max_value it nb)"
  shows "min_value_loop_lim d it b as bs ba = Some (min_value_loop it b as bs ba)"
  supply max_value_lim.simps [simp del] min_value_lim.simps [simp del]
  using assms
proof (induction as arbitrary: bs ba)
  case Nil
  show ?case by simp
next
  case (Cons a as)
  show ?case
  proof (cases "result b a")
    case (Inl e)
    then show ?thesis by simp
  next
    case (Inr nb)
    from Cons.prems[OF _ Inr] obtain d' where d: "d = Suc d'"
      and m: "max_value_lim d' it nb = Some (max_value it nb)" by auto
    have ih: "min_value_loop_lim d it b as s x = Some (min_value_loop it b as s x)" for s x
      by (rule Cons.IH) (use Cons.prems in auto)
    show ?thesis
      by (cases "max_value it nb") (simp_all add: Inr d m ih[unfolded d] Let_def)
  qed
qed

lemma value_lim_eq:
  "count_mark None b \<le> d \<Longrightarrow>
   max_value_lim d it b = Some (max_value it b) \<and> min_value_lim d it b = Some (min_value it b)"
  supply max_value_lim.simps [simp del] min_value_lim.simps [simp del]
proof (induction d arbitrary: b)
  case 0
  have no: "result b a \<noteq> Inr nb" for a nb
    using count_mark_result(1)[of b a nb] 0 by auto
  have "max_value_loop_lim 0 it b as NegInf None = Some (max_value_loop it b as NegInf None)" for as
    by (rule max_value_loop_lim_eq) (use no in auto)
  moreover
  have "min_value_loop_lim 0 it b as PosInf None = Some (min_value_loop it b as PosInf None)" for as
    by (rule min_value_loop_lim_eq) (use no in auto)
  ultimately show ?case
    by (auto simp: max_value.simps min_value.simps max_value_lim.simps min_value_lim.simps
        ebind_def split: sum.splits)
next
  case (Suc d)
  have sub: "\<exists>d'. Suc d = Suc d' \<and> min_value_lim d' it nb = Some (min_value it nb) \<and>
      max_value_lim d' it nb = Some (max_value it nb)" if "result b a = Inr nb" for a nb
  proof -
    from count_mark_result(1)[OF that] Suc.prems have "count_mark None nb \<le> d" by simp
    from Suc.IH[OF this] show ?thesis by simp
  qed
  have "max_value_loop_lim (Suc d) it b as NegInf None = Some (max_value_loop it b as NegInf None)" for as
    by (rule max_value_loop_lim_eq) (use sub in blast)
  moreover
  have "min_value_loop_lim (Suc d) it b as PosInf None = Some (min_value_loop it b as PosInf None)" for as
    by (rule min_value_loop_lim_eq) (use sub in blast)
  ultimately show ?case
    by (auto simp: max_value.simps min_value.simps max_value_lim.simps min_value_lim.simps
        ebind_def split: sum.splits)
qed

lemma count_empty_wf: "wf_board b \<Longrightarrow> count_mark None b \<le> 9"
  unfolding wf_board_lit by (auto simp: count_mark_def)

text \<open>
  Claim C8. \<^verbatim>\<open>max_value\<close> and \<^verbatim>\<open>min_value\<close> terminate on every board, for every
  iteration order: each recursive call is on a board returned by \<^verbatim>\<open>result\<close>, which has
  strictly fewer empty cells than the caller's board, so the search returns within as
  many nested levels of calls as the board has empty cells; on a 3 by 3 board these are
  at most 9.
\<close>

theorem search_recursion_depth:
  "max_value_lim (count_mark EMPTY b) it b = Some (max_value it b) \<and>
   min_value_lim (count_mark EMPTY b) it b = Some (min_value it b) \<and>
   (result b a = Inr nb \<longrightarrow> count_mark EMPTY nb < count_mark EMPTY b) \<and>
   (wf_board b \<longrightarrow>
      count_mark EMPTY b \<le> 9 \<and>
      max_value_lim 9 it b = Some (max_value it b) \<and>
      min_value_lim 9 it b = Some (min_value it b))"
proof -
  have "max_value_lim (count_mark EMPTY b) it b = Some (max_value it b)"
    "min_value_lim (count_mark EMPTY b) it b = Some (min_value it b)"
    using value_lim_eq[of b "count_mark EMPTY b" it] by simp_all
  moreover have "result b a = Inr nb \<longrightarrow> count_mark EMPTY nb < count_mark EMPTY b"
    using count_mark_result(1)[of b a nb] by auto
  moreover have "count_mark EMPTY b \<le> 9 \<and> max_value_lim 9 it b = Some (max_value it b) \<and>
      min_value_lim 9 it b = Some (min_value it b)" if "wf_board b"
    using value_lim_eq[OF count_empty_wf[OF that], of it] count_empty_wf[OF that] by simp
  ultimately show ?thesis by blast
qed

theorem search_recursion_depth_witness:
  "wf_board [[Some X, Some O', None], [None, Some O', None], [Some X, Some X, Some O']] \<and>
   count_mark EMPTY [[Some X, Some O', None], [None, Some O', None], [Some X, Some X, Some O']]
     = 3 \<and>
   max_value_lim 3 row_major
       [[Some X, Some O', None], [None, Some O', None], [Some X, Some X, Some O']]
     = Some (Inr (Fin 1, Some (1, 0))) \<and>
   max_value_lim 9 row_major
       [[Some X, Some O', None], [None, Some O', None], [Some X, Some X, Some O']]
     = Some (Inr (Fin 1, Some (1, 0))) \<and>
   result [[Some X, Some O', None], [None, Some O', None], [Some X, Some X, Some O']] (1, 0)
     = Inr [[Some X, Some O', None], [Some X, Some O', None], [Some X, Some X, Some O']] \<and>
   count_mark EMPTY [[Some X, Some O', None], [Some X, Some O', None], [Some X, Some X, Some O']]
     < 3"
proof -
  let ?B = "[[Some X, Some O', None], [None, Some O', None], [Some X, Some X, Some O']]"
  let ?N = "[[Some X, Some O', None], [Some X, Some O', None], [Some X, Some X, Some O']]"
  have w: "wf_board ?B" by (simp add: wf_board_def)
  have c: "count_mark EMPTY ?B = 3" by (simp add: count_mark_def)
  have m: "max_value row_major ?B = Inr (Fin 1, Some (1, 0))" by code_simp
  have r: "result ?B (1, 0) = Inr ?N" by (simp add: result_lit player_def count_mark_def)
  note th = search_recursion_depth[of ?B row_major "(1, 0)" ?N]
  from th have "max_value_lim (count_mark EMPTY ?B) row_major ?B = Some (max_value row_major ?B)"
    by (rule conjunct1)
  then have l3: "max_value_lim 3 row_major ?B = Some (Inr (Fin 1, Some (1, 0)))"
    unfolding c m .
  from th[THEN conjunct2, THEN conjunct2, THEN conjunct1] r
  have d: "count_mark EMPTY ?N < count_mark EMPTY ?B" by (rule mp)
  from th[THEN conjunct2, THEN conjunct2, THEN conjunct2] w
  have "count_mark EMPTY ?B \<le> 9 \<and> max_value_lim 9 row_major ?B = Some (max_value row_major ?B) \<and>
      min_value_lim 9 row_major ?B = Some (min_value row_major ?B)" by (rule mp)
  then have l9: "max_value_lim 9 row_major ?B = Some (Inr (Fin 1, Some (1, 0)))"
    unfolding m by blast
  from w c l3 l9 r d[unfolded c] show ?thesis by (intro conjI)
qed

section \<open>The rules on a 3 by 3 board\<close>

lemma wf_board_result:
  assumes "wf_board b" and "result b a = Inr nb"
  shows "wf_board nb"
proof -
  from result_Inr_D[OF assms(2)] obtain k j where kj: "k < length b"
    "nb = b[k := (b ! k)[j := Some (player b)]]" by blast
  from assms(1) kj(1) have "length (b ! k) = 3"
    by (simp add: wf_board_def list_all_length)
  with assms(1) kj(1) show ?thesis
    unfolding kj(2) wf_board_def list_all_length by (auto simp: nth_list_update)
qed

lemma cell_at_total:
  assumes "wf_board b" and "(row, column) \<in> set cells"
  shows "\<exists>c. cell_at b row column = Inr c"
proof -
  from assms(1) obtain a b' c d e f g h i where b: "b = [[a, b', c], [d, e, f], [g, h, i]]"
    unfolding wf_board_lit by blast
  from assms(2) show ?thesis
    unfolding b by (auto simp: cells_def range3_def cell_at_lit)
qed

lemma actions_loop_Inr:
  assumes "\<And>row column. (row, column) \<in> set ms \<Longrightarrow> \<exists>c. cell_at b row column = Inr c"
  shows "actions_loop b ms acc =
         Inr (acc \<union> {a \<in> set ms. cell_at b (fst a) (snd a) = Inr None})"
  using assms
proof (induction ms arbitrary: acc)
  case Nil
  show ?case by simp
next
  case (Cons m ms)
  obtain row column where m: "m = (row, column)" by (cases m)
  from Cons.prems[of row column] obtain c where c: "cell_at b row column = Inr c"
    unfolding m by auto
  have "actions_loop b ms acc' =
      Inr (acc' \<union> {a \<in> set ms. cell_at b (fst a) (snd a) = Inr None})" for acc'
    by (rule Cons.IH) (use Cons.prems in auto)
  then show ?case
    unfolding m using c by auto
qed

lemma actions_wf:
  assumes "wf_board b"
  shows "actions b = Inr {a \<in> set cells. cell_at b (fst a) (snd a) = Inr None}"
  unfolding actions_def cells_def[symmetric]
  using actions_loop_Inr[of cells b "{}"] cell_at_total[OF assms] by simp

lemma legal_moves_wf:
  "wf_board b \<Longrightarrow> legal_moves b = {a \<in> set cells. cell_at b (fst a) (snd a) = Inr None}"
  by (simp add: legal_moves_def actions_wf)

lemma actions_legal_moves: "wf_board b \<Longrightarrow> actions b = Inr (legal_moves b)"
  by (simp add: legal_moves_def actions_wf)

lemma legal_moves_cells: "wf_board b \<Longrightarrow> legal_moves b \<subseteq> set cells"
  by (auto simp: legal_moves_wf)

lemma finite_legal_moves: "wf_board b \<Longrightarrow> finite (legal_moves b)"
  using legal_moves_cells[of b] by (auto intro: finite_subset)

lemma terminal_wf: "wf_board b \<Longrightarrow> terminal b = Inr (is_terminal b)"
  using winner_total[of b] by (auto simp: terminal_def is_terminal_def)

lemma utility_wf: "wf_board b \<Longrightarrow> utility b = Inr (utility_of b)"
  using winner_total[of b] by (auto simp: utility_def utility_of_def)

lemma nonterminal_has_move:
  assumes "wf_board b" and "\<not> is_terminal b"
  shows "legal_moves b \<noteq> {}"
proof -
  from assms(1) obtain a b' c d e f g h i where b: "b = [[a, b', c], [d, e, f], [g, h, i]]"
    unfolding wf_board_lit by blast
  from winner_total[OF assms(1)] assms(2) have "\<not> full_board b"
    by (auto simp: is_terminal_def terminal_def split: if_splits)
  then have "a = None \<or> b' = None \<or> c = None \<or> d = None \<or> e = None \<or> f = None \<or>
      g = None \<or> h = None \<or> i = None"
    unfolding b by (auto simp: full_board_def split: if_splits)
  then have "\<exists>x \<in> set cells. cell_at b (fst x) (snd x) = Inr None"
    unfolding b by (auto simp: cells_def range3_def cell_at_lit)
  then show ?thesis
    unfolding legal_moves_wf[OF assms(1)] by blast
qed

lemma legal_move_result:
  assumes "wf_board b" and "a \<in> legal_moves b"
  shows "result b a = Inr (apply_move b a) \<and> wf_board (apply_move b a) \<and>
         count_mark None (apply_move b a) < count_mark None b"
proof -
  from legal_moves_result[OF assms(2)] obtain nb where nb: "result b a = Inr nb" by blast
  with wf_board_result[OF assms(1) nb] legal_moves_decreases[OF assms(2)]
  show ?thesis by (simp add: apply_move_def)
qed

lemma distinct_cells: "distinct cells"
  by (simp add: cells_def range3_def)

lemma enumerates_row_major: "enumerates row_major"
  unfolding enumerates_def row_major_def using distinct_cells by auto

section \<open>Correctness of the search\<close>

lemma best_max_step:
  assumes "best_max v S bs ba"
  shows "best_max v (insert a S)
           (if score_less bs (Fin (v a)) then Fin (v a) else bs)
           (if score_less bs (Fin (v a)) then Some a else ba)"
proof (cases "S = {}")
  case True
  with assms show ?thesis by (simp add: best_max_def)
next
  case False
  with assms obtain m where m: "m \<in> S" "bs = Fin (v m)" "ba = Some m" "\<forall>x \<in> S. v x \<le> v m"
    by (auto simp: best_max_def)
  show ?thesis
  proof (cases "v m < v a")
    case True
    with m show ?thesis by (fastforce simp: best_max_def)
  next
    case False
    with m show ?thesis by (auto simp: best_max_def)
  qed
qed

lemma best_min_step:
  assumes "best_min v S bs ba"
  shows "best_min v (insert a S)
           (if score_less (Fin (v a)) bs then Fin (v a) else bs)
           (if score_less (Fin (v a)) bs then Some a else ba)"
proof (cases "S = {}")
  case True
  with assms show ?thesis by (simp add: best_min_def)
next
  case False
  with assms obtain m where m: "m \<in> S" "bs = Fin (v m)" "ba = Some m" "\<forall>x \<in> S. v m \<le> v x"
    by (auto simp: best_min_def)
  show ?thesis
  proof (cases "v a < v m")
    case True
    with m show ?thesis by (fastforce simp: best_min_def)
  next
    case False
    with m show ?thesis by (auto simp: best_min_def)
  qed
qed

lemma max_value_loop_best:
  assumes "\<And>a. a \<in> set as \<Longrightarrow>
             \<exists>nb r. result b a = Inr nb \<and> min_value it nb = Inr (Fin (v a), r)"
    and "best_max v S bs ba"
  shows "\<exists>bs' ba'. max_value_loop it b as bs ba = Inr (bs', ba') \<and>
                   best_max v (S \<union> set as) bs' ba'"
  using assms
proof (induction as arbitrary: S bs ba)
  case Nil
  then show ?case by simp
next
  case (Cons a as)
  from Cons.prems(1)[of a] obtain nb r where nb: "result b a = Inr nb"
    and mv: "min_value it nb = Inr (Fin (v a), r)" by auto
  let ?bs = "if score_less bs (Fin (v a)) then Fin (v a) else bs"
  let ?ba = "if score_less bs (Fin (v a)) then Some a else ba"
  have step: "max_value_loop it b (a # as) bs ba = max_value_loop it b as ?bs ?ba"
    by (simp add: nb mv Let_def)
  have "\<exists>bs' ba'. max_value_loop it b as ?bs ?ba = Inr (bs', ba') \<and>
                   best_max v (insert a S \<union> set as) bs' ba'"
    by (rule Cons.IH) (use Cons.prems(1) best_max_step[OF Cons.prems(2)] in auto)
  with step show ?case by simp
qed

lemma min_value_loop_best:
  assumes "\<And>a. a \<in> set as \<Longrightarrow>
             \<exists>nb r. result b a = Inr nb \<and> max_value it nb = Inr (Fin (v a), r)"
    and "best_min v S bs ba"
  shows "\<exists>bs' ba'. min_value_loop it b as bs ba = Inr (bs', ba') \<and>
                   best_min v (S \<union> set as) bs' ba'"
  using assms
proof (induction as arbitrary: S bs ba)
  case Nil
  then show ?case by simp
next
  case (Cons a as)
  from Cons.prems(1)[of a] obtain nb r where nb: "result b a = Inr nb"
    and mv: "max_value it nb = Inr (Fin (v a), r)" by auto
  let ?bs = "if score_less (Fin (v a)) bs then Fin (v a) else bs"
  let ?ba = "if score_less (Fin (v a)) bs then Some a else ba"
  have step: "min_value_loop it b (a # as) bs ba = min_value_loop it b as ?bs ?ba"
    by (simp add: nb mv Let_def)
  have "\<exists>bs' ba'. min_value_loop it b as ?bs ?ba = Inr (bs', ba') \<and>
                   best_min v (insert a S \<union> set as) bs' ba'"
    by (rule Cons.IH) (use Cons.prems(1) best_min_step[OF Cons.prems(2)] in auto)
  with step show ?case by simp
qed

lemma guaranteed_terminal: "is_terminal b \<Longrightarrow> guaranteed p b = utility_of b"
  by (simp add: guaranteed.simps)

lemma guaranteed_X:
  "\<not> is_terminal b \<Longrightarrow>
   guaranteed X b = Max ((\<lambda>a. guaranteed O' (apply_move b a)) ` legal_moves b)"
  by (subst guaranteed.simps) simp

lemma guaranteed_O:
  "\<not> is_terminal b \<Longrightarrow>
   guaranteed O' b = Min ((\<lambda>a. guaranteed X (apply_move b a)) ` legal_moves b)"
  by (subst guaranteed.simps) simp

text \<open>The two searches compute the guaranteed utility and a move that attains it.\<close>

lemma value_correct:
  assumes "enumerates it"
  shows "wf_board b \<Longrightarrow>
    (\<exists>r. max_value it b = Inr (Fin (guaranteed X b), r) \<and>
         (if is_terminal b then r = None
          else \<exists>m \<in> legal_moves b. r = Some m \<and>
                 guaranteed O' (apply_move b m) = guaranteed X b)) \<and>
    (\<exists>r. min_value it b = Inr (Fin (guaranteed O' b), r) \<and>
         (if is_terminal b then r = None
          else \<exists>m \<in> legal_moves b. r = Some m \<and>
                 guaranteed X (apply_move b m) = guaranteed O' b))"
proof (induction "count_mark None b" arbitrary: b rule: less_induct)
  case less
  note wf = less.prems
  show ?case
  proof (cases "is_terminal b")
    case True
    then show ?thesis
      by (simp add: max_value.simps min_value.simps terminal_wf[OF wf] utility_wf[OF wf]
          guaranteed_terminal)
  next
    case False
    let ?L = "legal_moves b"
    from legal_moves_cells[OF wf] assms have it: "set (it ?L) = ?L"
      by (simp add: enumerates_def)
    have ne: "?L \<noteq> {}" by (rule nonterminal_has_move[OF wf False])
    have fin: "finite ?L" by (rule finite_legal_moves[OF wf])
    have sub: "\<exists>nb. result b a = Inr nb \<and>
        (\<exists>r. min_value it nb = Inr (Fin (guaranteed O' (apply_move b a)), r)) \<and>
        (\<exists>r. max_value it nb = Inr (Fin (guaranteed X (apply_move b a)), r))"
      if "a \<in> set (it ?L)" for a
    proof -
      from that it have a: "a \<in> ?L" by simp
      from legal_move_result[OF wf a] less.hyps[of "apply_move b a"]
      show ?thesis by blast
    qed
    \<comment> \<open>the maximising search\<close>
    let ?v = "\<lambda>a. guaranteed O' (apply_move b a)"
    have "\<exists>bs' ba'. max_value_loop it b (it ?L) NegInf None = Inr (bs', ba') \<and>
        best_max ?v ({} \<union> set (it ?L)) bs' ba'"
    proof (rule max_value_loop_best)
      show "best_max ?v {} NegInf None" by (simp add: best_max_def)
    next
      fix a assume "a \<in> set (it ?L)"
      from sub[OF this]
      show "\<exists>nb r. result b a = Inr nb \<and> min_value it nb = Inr (Fin (?v a), r)" by blast
    qed
    then obtain m where m: "m \<in> ?L"
      "max_value_loop it b (it ?L) NegInf None = Inr (Fin (?v m), Some m)"
      "\<forall>a \<in> ?L. ?v a \<le> ?v m"
      using ne by (auto simp: best_max_def it)
    have "Max (?v ` ?L) = ?v m"
      by (rule Max_eqI) (use m fin in auto)
    with guaranteed_X[OF False] have gx: "guaranteed X b = ?v m" by simp
    have mx: "max_value it b = Inr (Fin (guaranteed X b), Some m)"
      by (simp add: max_value.simps terminal_wf[OF wf] False actions_legal_moves[OF wf] m(2) gx)
    \<comment> \<open>the minimising search\<close>
    let ?w = "\<lambda>a. guaranteed X (apply_move b a)"
    have "\<exists>bs' ba'. min_value_loop it b (it ?L) PosInf None = Inr (bs', ba') \<and>
        best_min ?w ({} \<union> set (it ?L)) bs' ba'"
    proof (rule min_value_loop_best)
      show "best_min ?w {} PosInf None" by (simp add: best_min_def)
    next
      fix a assume "a \<in> set (it ?L)"
      from sub[OF this]
      show "\<exists>nb r. result b a = Inr nb \<and> max_value it nb = Inr (Fin (?w a), r)" by blast
    qed
    then obtain n where n: "n \<in> ?L"
      "min_value_loop it b (it ?L) PosInf None = Inr (Fin (?w n), Some n)"
      "\<forall>a \<in> ?L. ?w n \<le> ?w a"
      using ne by (auto simp: best_min_def it)
    have "Min (?w ` ?L) = ?w n"
      by (rule Min_eqI) (use n fin in auto)
    with guaranteed_O[OF False] have go: "guaranteed O' b = ?w n" by simp
    have mn: "min_value it b = Inr (Fin (guaranteed O' b), Some n)"
      by (simp add: min_value.simps terminal_wf[OF wf] False actions_legal_moves[OF wf] n(2) go)
    from mx mn m(1) n(1) gx go False show ?thesis by auto
  qed
qed

lemma minimax_correct:
  assumes "wf_board b" and "enumerates it"
  shows "if is_terminal b then minimax it b = Inr None
         else \<exists>m \<in> legal_moves b. minimax it b = Inr (Some m) \<and>
                guaranteed (other (player b)) (apply_move b m) = guaranteed (player b) b"
proof (cases "is_terminal b")
  case True
  then show ?thesis by (simp add: minimax_def terminal_wf[OF assms(1)])
next
  case False
  from value_correct[OF assms(2) assms(1)] False
  obtain m n where m: "m \<in> legal_moves b"
      "max_value it b = Inr (Fin (guaranteed X b), Some m)"
      "guaranteed O' (apply_move b m) = guaranteed X b"
    and n: "n \<in> legal_moves b"
      "min_value it b = Inr (Fin (guaranteed O' b), Some n)"
      "guaranteed X (apply_move b n) = guaranteed O' b"
    by auto
  show ?thesis
  proof (cases "player b")
    case X
    with False m show ?thesis by (simp add: minimax_def terminal_wf[OF assms(1)])
  next
    case O'
    with False n show ?thesis by (simp add: minimax_def terminal_wf[OF assms(1)])
  qed
qed

lemma minimax_best:
  assumes "wf_board b" and "enumerates it" and "\<not> is_terminal b"
  shows "\<exists>m \<in> legal_moves b. minimax it b = Inr (Some m) \<and>
           (player b = X \<longrightarrow>
              (\<forall>a \<in> legal_moves b.
                 guaranteed O' (apply_move b a) \<le> guaranteed O' (apply_move b m))) \<and>
           (player b = O' \<longrightarrow>
              (\<forall>a \<in> legal_moves b.
                 guaranteed X (apply_move b m) \<le> guaranteed X (apply_move b a)))"
proof -
  from minimax_correct[OF assms(1,2)] assms(3) obtain m where m: "m \<in> legal_moves b"
    "minimax it b = Inr (Some m)"
    "guaranteed (other (player b)) (apply_move b m) = guaranteed (player b) b" by auto
  have fin: "finite (f ` legal_moves b)" for f :: "action \<Rightarrow> int"
    using finite_legal_moves[OF assms(1)] by simp
  have "guaranteed O' (apply_move b a) \<le> guaranteed O' (apply_move b m)"
    if "player b = X" "a \<in> legal_moves b" for a
  proof -
    have "guaranteed O' (apply_move b a) \<le> guaranteed X b"
      unfolding guaranteed_X[OF assms(3)] by (rule Max_ge[OF fin]) (use that(2) in blast)
    with m(3) that(1) show ?thesis by simp
  qed
  moreover
  have "guaranteed X (apply_move b m) \<le> guaranteed X (apply_move b a)"
    if "player b = O'" "a \<in> legal_moves b" for a
  proof -
    have "guaranteed O' b \<le> guaranteed X (apply_move b a)"
      unfolding guaranteed_O[OF assms(3)] by (rule Min_le[OF fin]) (use that(2) in blast)
    with m(3) that(1) show ?thesis by simp
  qed
  ultimately show ?thesis using m(1,2) by blast
qed



section \<open>Bounds on the guaranteed utility\<close>

lemma forces_someD:
  "forces_some k p ord mv b as \<Longrightarrow>
   \<exists>a \<in> set as. \<exists>nb. result b a = Inr nb \<and> forces k p ord (other mv) nb"
  by (induction as) (auto split: sum.splits if_splits simp del: forces.simps)

lemma forces_allD:
  "forces_all k p ord mv b as \<Longrightarrow> a \<in> set as \<Longrightarrow> result b a = Inr nb \<Longrightarrow>
   forces k p ord (other mv) nb"
  by (induction as) (auto split: sum.splits if_splits simp del: forces.simps)

lemma result_Inr_cell:
  "result b a = Inr nb \<Longrightarrow> cell_at b (fst a) (snd a) = Inr None"
  by (auto simp: result_def Let_def ebind_Inr_iff split: if_splits)

lemma forces_sound:
  assumes "set ord \<subseteq> set cells"
  shows "wf_board b \<Longrightarrow> forces k p ord mv b \<Longrightarrow>
         (if p = X then k \<le> guaranteed mv b else guaranteed mv b \<le> k)"
proof (induction "count_mark None b" arbitrary: b mv rule: less_induct)
  case less
  note wf = less.prems(1) and f = less.prems(2)
  show ?case
  proof (cases "is_terminal b")
    case True
    with f show ?thesis
      by (simp add: terminal_wf[OF wf] utility_wf[OF wf] guaranteed_terminal)
  next
    case False
    let ?L = "legal_moves b"
    let ?g = "\<lambda>a. guaranteed (other mv) (apply_move b a)"
    have fin: "finite (?g ` ?L)" using finite_legal_moves[OF wf] by simp
    have ne: "?g ` ?L \<noteq> {}" using nonterminal_has_move[OF wf False] by simp
    have g: "guaranteed mv b = (if mv = X then Max (?g ` ?L) else Min (?g ` ?L))"
      using guaranteed_X[OF False] guaranteed_O[OF False] by (cases mv) auto
    have ih: "if p = X then k \<le> ?g a else ?g a \<le> k"
      if "a \<in> ?L" "forces k p ord (other mv) (apply_move b a)" for a
      using legal_move_result[OF wf that(1)] less.hyps[of "apply_move b a" "other mv"] that(2)
      by blast
    show ?thesis
    proof (cases "mv = p")
      case True
      with f False have "forces_some k p ord mv b ord"
        by (simp add: terminal_wf[OF wf])
      from forces_someD[OF this] obtain a nb where a: "a \<in> set ord" "result b a = Inr nb"
        "forces k p ord (other mv) nb" by blast
      from a(1) assms result_Inr_cell[OF a(2)] have aL: "a \<in> ?L"
        by (auto simp: legal_moves_wf[OF wf])
      from a(2,3) have "forces k p ord (other mv) (apply_move b a)"
        by (simp add: apply_move_def)
      from ih[OF aL this] have b: "if p = X then k \<le> ?g a else ?g a \<le> k" .
      show ?thesis
      proof (cases p)
        case X
        with b True g Max_ge[OF fin, of "?g a"] aL show ?thesis by auto
      next
        case O'
        with b True g Min_le[OF fin, of "?g a"] aL show ?thesis by auto
      qed
    next
      case diff: False
      with f False have fa: "forces_all k p ord mv b cells"
        by (simp add: terminal_wf[OF wf])
      have all: "if p = X then k \<le> ?g a else ?g a \<le> k" if "a \<in> ?L" for a
      proof -
        from legal_move_result[OF wf that] have r: "result b a = Inr (apply_move b a)" by simp
        from that legal_moves_cells[OF wf] have "a \<in> set cells" by blast
        from forces_allD[OF fa this r] ih[OF that] show ?thesis by blast
      qed
      show ?thesis
      proof (cases p)
        case X
        with diff have "mv = O'" by (cases mv) auto
        with X all g Min_ge_iff[OF fin ne, of k] show ?thesis by auto
      next
        case O'
        with diff have "mv = X" by (cases mv) auto
        with O' all g Max_le_iff[OF fin ne, of k] show ?thesis by auto
      qed
    qed
  qed
qed

section \<open>One move from winning\<close>

lemma one_move_others:
  "guaranteed O' [[Some X, Some X, None], [Some O', Some O', Some X], [None, None, None]] \<le> 0"
  "guaranteed O' [[Some X, Some X, None], [Some O', Some O', None], [Some X, None, None]] \<le> 0"
  "guaranteed O' [[Some X, Some X, None], [Some O', Some O', None], [None, Some X, None]] \<le> 0"
  "guaranteed O' [[Some X, Some X, None], [Some O', Some O', None], [None, None, Some X]] \<le> 0"
proof -
  have c: "set cells \<subseteq> set cells" by simp
  have "forces 0 O' cells O' [[Some X, Some X, None], [Some O', Some O', Some X], [None, None, None]]"
    by (simp add: cells_def range3_def board_eval)
  from forces_sound[OF c _ this]
  show "guaranteed O' [[Some X, Some X, None], [Some O', Some O', Some X], [None, None, None]] \<le> 0"
    by (simp add: wf_board_def)
  have "forces 0 O' cells O' [[Some X, Some X, None], [Some O', Some O', None], [Some X, None, None]]"
    by (simp add: cells_def range3_def board_eval)
  from forces_sound[OF c _ this]
  show "guaranteed O' [[Some X, Some X, None], [Some O', Some O', None], [Some X, None, None]] \<le> 0"
    by (simp add: wf_board_def)
  have "forces 0 O' cells O' [[Some X, Some X, None], [Some O', Some O', None], [None, Some X, None]]"
    by (simp add: cells_def range3_def board_eval)
  from forces_sound[OF c _ this]
  show "guaranteed O' [[Some X, Some X, None], [Some O', Some O', None], [None, Some X, None]] \<le> 0"
    by (simp add: wf_board_def)
  have "forces 0 O' cells O' [[Some X, Some X, None], [Some O', Some O', None], [None, None, Some X]]"
    by (simp add: cells_def range3_def board_eval)
  from forces_sound[OF c _ this]
  show "guaranteed O' [[Some X, Some X, None], [Some O', Some O', None], [None, None, Some X]] \<le> 0"
    by (simp add: wf_board_def)
qed

text \<open>
  Claim C3. On the board with X on (0,0), (0,1) and O on (1,0), (1,1), X to move,
  \<^verbatim>\<open>minimax\<close> returns (0,2) for every iteration order; that move gives a terminal board
  of utility 1; and every other legal move leaves a guaranteed utility below 1.
\<close>

theorem one_move_from_winning:
  assumes "enumerates it"
  shows "player [[Some X, Some X, None], [Some O', Some O', None], [None, None, None]] = X \<and>
         minimax it [[Some X, Some X, None], [Some O', Some O', None], [None, None, None]]
           = Inr (Some (0, 2)) \<and>
         result [[Some X, Some X, None], [Some O', Some O', None], [None, None, None]] (0, 2)
           = Inr [[Some X, Some X, Some X], [Some O', Some O', None], [None, None, None]] \<and>
         terminal [[Some X, Some X, Some X], [Some O', Some O', None], [None, None, None]]
           = Inr True \<and>
         utility [[Some X, Some X, Some X], [Some O', Some O', None], [None, None, None]]
           = Inr 1 \<and>
         (\<forall>a \<in> legal_moves [[Some X, Some X, None], [Some O', Some O', None], [None, None, None]].
            a \<noteq> (0, 2) \<longrightarrow>
            guaranteed O'
              (apply_move [[Some X, Some X, None], [Some O', Some O', None], [None, None, None]] a)
              < 1)"
proof -
  let ?B = "[[Some X, Some X, None], [Some O', Some O', None], [None, None, None]]"
  let ?W = "[[Some X, Some X, Some X], [Some O', Some O', None], [None, None, None]]"
  have w: "wf_board ?B" by (simp add: wf_board_def)
  have p: "player ?B = X" by (simp add: board_eval)
  have nt: "\<not> is_terminal ?B" by (simp add: is_terminal_def board_eval)
  have r: "result ?B (0, 2) = Inr ?W" by (simp add: board_eval)
  have t: "terminal ?W = Inr True" by (simp add: board_eval)
  have u: "utility ?W = Inr 1" by (simp add: board_eval)
  have win: "guaranteed O' (apply_move ?B (0, 2)) = 1"
    using t u by (simp add: apply_move_def r guaranteed_terminal is_terminal_def utility_of_def)
  have others: "guaranteed O' (apply_move ?B a) < 1" if "a \<in> legal_moves ?B" "a \<noteq> (0, 2)" for a
  proof -
    from that have "a \<in> {(1, 2), (2, 0), (2, 1), (2, 2)}"
      unfolding legal_moves_wf[OF w] by (auto simp: cells_def range3_def cell_at_lit)
    then show ?thesis
      using one_move_others by (auto simp: apply_move_def board_eval)
  qed
  have l: "(0, 2) \<in> legal_moves ?B"
    unfolding legal_moves_wf[OF w] by (simp add: cells_def range3_def cell_at_lit)
  from minimax_best[OF w assms nt] p obtain m where m: "m \<in> legal_moves ?B"
    "minimax it ?B = Inr (Some m)"
    "\<forall>a \<in> legal_moves ?B. guaranteed O' (apply_move ?B a) \<le> guaranteed O' (apply_move ?B m)"
    by auto
  from m(3) l win have "1 \<le> guaranteed O' (apply_move ?B m)" by force
  with others[OF m(1)] have "m = (0, 2)" by force
  with m(2) p r t u others show ?thesis by blast
qed

theorem one_move_from_winning_witness:
  "enumerates row_major \<and>
   minimax row_major [[Some X, Some X, None], [Some O', Some O', None], [None, None, None]]
     = Inr (Some (0, 2)) \<and>
   utility [[Some X, Some X, Some X], [Some O', Some O', None], [None, None, None]] = Inr 1 \<and>
   (1, 2) \<in> legal_moves [[Some X, Some X, None], [Some O', Some O', None], [None, None, None]] \<and>
   guaranteed O'
       (apply_move [[Some X, Some X, None], [Some O', Some O', None], [None, None, None]] (1, 2))
     < 1"
proof -
  let ?B = "[[Some X, Some X, None], [Some O', Some O', None], [None, None, None]]"
  note th = one_move_from_winning[OF enumerates_row_major]
  have w: "wf_board ?B" by (simp add: wf_board_def)
  have l: "(1, 2) \<in> legal_moves ?B"
    unfolding legal_moves_wf[OF w] by (simp add: cells_def range3_def cell_at_lit)
  from th have m: "minimax row_major ?B = Inr (Some (0, 2))"
    and u: "utility [[Some X, Some X, Some X], [Some O', Some O', None], [None, None, None]]
      = Inr 1"
    and o: "\<forall>a \<in> legal_moves ?B. a \<noteq> (0, 2) \<longrightarrow> guaranteed O' (apply_move ?B a) < 1"
    by blast+
  from o l have "guaranteed O' (apply_move ?B (1, 2)) < 1" by auto
  with enumerates_row_major m u l show ?thesis by (intro conjI)
qed

section \<open>Playing a game with \<^verbatim>\<open>minimax\<close> on both sides\<close>

text \<open>
  Every cell holds nothing, an X or an O, so the three counts of a 3 by 3 board add up to
  9, and a board has no empty cell exactly when the count of empty cells is 0.
\<close>

lemma count_list_cell:
  "count_list (xs :: cell list) None + count_list xs (Some X) + count_list xs (Some O')
     = length xs"
proof (induction xs)
  case Nil
  show ?case by simp
next
  case (Cons c cs)
  show ?case
  proof (cases c)
    case None
    with Cons show ?thesis by simp
  next
    case (Some m)
    with Cons show ?thesis by (cases m) simp_all
  qed
qed

lemma count_mark_total:
  "count_mark None b + count_mark (Some X) b + count_mark (Some O') b = sum_list (map length b)"
  unfolding count_mark_def
proof (induction b)
  case Nil
  show ?case by simp
next
  case (Cons r rs)
  from Cons count_list_cell[of r] show ?case by simp
qed

lemma count_mark_wf:
  assumes "wf_board b"
  shows "count_mark None b + count_mark (Some X) b + count_mark (Some O') b = 9"
proof -
  from assms obtain r0 r1 r2 where b: "b = [r0, r1, r2]" "length r0 = 3" "length r1 = 3"
    "length r2 = 3"
    unfolding wf_board_def by (auto simp: length_3_conv)
  show ?thesis unfolding count_mark_total b(1) by (simp add: b(2-))
qed

lemma count_mark_None_0: "count_mark None b = 0 \<longleftrightarrow> None \<notin> set (concat b)"
  by (auto simp: count_mark_def count_list_0_iff)

text \<open>
  The game loop returns. Its last board is reached from the first one by the moves that
  \<^verbatim>\<open>minimax\<close> chose, one call of \<^verbatim>\<open>result\<close> for each, it is terminal, and its utility is the
  guaranteed utility of the first board.
\<close>

lemma play_reaches_guaranteed:
  assumes "enumerates it"
  shows "wf_board b \<Longrightarrow> turn_ok b \<Longrightarrow>
         \<exists>b' as. play it b = Inr b' \<and> result_all b as = Inr b' \<and>
              length as + count_mark None b' = count_mark None b \<and>
              wf_board b' \<and> turn_ok b' \<and> terminal b' = Inr True \<and>
              utility b' = Inr (guaranteed (player b) b)"
  supply play.simps [simp del]
proof (induction "count_mark None b" arbitrary: b rule: less_induct)
  case less
  note wf = less.prems(1) and ok = less.prems(2)
  show ?case
  proof (cases "is_terminal b")
    case True
    with minimax_correct[OF wf assms] have "minimax it b = Inr None" by simp
    then have "play it b = Inr b" by (simp add: play.simps)
    moreover have "result_all b [] = Inr b"
      "length ([] :: action list) + count_mark None b = count_mark None b"
      by simp_all
    moreover from True have "terminal b = Inr True" "utility b = Inr (guaranteed (player b) b)"
      using terminal_wf[OF wf] utility_wf[OF wf] by (simp_all add: guaranteed_terminal)
    ultimately show ?thesis using wf ok by blast
  next
    case False
    with minimax_correct[OF wf assms] obtain m where m: "m \<in> legal_moves b"
      "minimax it b = Inr (Some m)"
      "guaranteed (other (player b)) (apply_move b m) = guaranteed (player b) b" by auto
    let ?nb = "apply_move b m"
    from legal_move_result[OF wf m(1)] have r: "result b m = Inr ?nb" "wf_board ?nb"
      "count_mark None ?nb < count_mark None b" by simp_all
    from turn_ok_result[OF ok r(1)] have t: "turn_ok ?nb" "player ?nb = other (player b)"
      by simp_all
    from less.hyps[OF r(3) r(2) t(1)] obtain b' as where b': "play it ?nb = Inr b'"
      "result_all ?nb as = Inr b'" "length as + count_mark None b' = count_mark None ?nb"
      "wf_board b'" "turn_ok b'"
      "terminal b' = Inr True" "utility b' = Inr (guaranteed (player ?nb) ?nb)" by blast
    have p: "play it b = Inr b'"
      by (subst play.simps) (simp add: m(2) r(1) b'(1))
    have ra: "result_all b (m # as) = Inr b'" by (simp add: r(1) b'(2))
    from count_mark_result(1)[OF r(1)] b'(3)
    have l: "length (m # as) + count_mark None b' = count_mark None b" by simp
    from b'(7) t(2) m(3) have u: "utility b' = Inr (guaranteed (player b) b)" by simp
    from p ra l b'(4,5,6) u show ?thesis by blast
  qed
qed

text \<open>
  A terminal 3 by 3 board of utility 0 is a draw: \<^verbatim>\<open>winner\<close> returns \<^verbatim>\<open>None\<close>, so the
  board is terminal because it is full, and neither mark has a complete line.
\<close>

lemma draw_board:
  assumes "wf_board b" and "terminal b = Inr True" and "utility b = Inr 0"
  shows "winner b = Inr None \<and> None \<notin> set (concat b) \<and> \<not> has_line b X \<and> \<not> has_line b O'"
proof -
  from winner_total[OF assms(1)] obtain w where w: "winner b = Inr w" by blast
  have n: "w = None"
  proof (cases w)
    case None
    then show ?thesis .
  next
    case (Some m)
    with assms(3) w show ?thesis by (cases m) (simp_all add: utility_def)
  qed
  with assms(2) w have "full_board b" by (simp add: terminal_def)
  then have "None \<notin> set (concat b)"
    by (auto simp: full_board_def list_all_iff split: if_splits)
  with w n winner_None_no_line[OF assms(1)] show ?thesis by simp
qed

lemma initial_lower:
  "forces 0 X [(2,2),(2,0),(2,1),(1,1),(0,0),(0,1),(1,0),(1,2),(0,2)] X initial_state"
  by (simp add: initial_state_def cells_def range3_def board_eval)

lemma initial_upper:
  "forces 0 O' [(1,1),(0,2),(2,0),(2,2),(2,1),(0,1),(0,0),(1,2),(1,0)] X initial_state"
  by (simp add: initial_state_def cells_def range3_def board_eval)

lemma guaranteed_initial: "guaranteed X initial_state = 0"
proof -
  have "0 \<le> guaranteed X initial_state"
    using forces_sound[OF _ wf_initial_state initial_lower]
    by (simp add: cells_def range3_def)
  moreover have "guaranteed X initial_state \<le> 0"
    using forces_sound[OF _ wf_initial_state initial_upper]
    by (simp add: cells_def range3_def)
  ultimately show ?thesis by simp
qed

text \<open>
  Claim C4. From the initial board, asking \<^verbatim>\<open>minimax\<close> for the move of whichever
  player is to move and applying it with \<^verbatim>\<open>result\<close>, again and again, the game ends in
  a draw, whatever the iteration order of the action sets: the loop returns a board that
  nine calls of \<^verbatim>\<open>result\<close> reach from the initial board, a 3 by 3 board with no empty
  cell, five X and four O, on which neither X nor O has a complete line; on it \<^verbatim>\<open>winner\<close>
  returns \<^verbatim>\<open>None\<close>, \<^verbatim>\<open>terminal\<close> returns \<^verbatim>\<open>True\<close> and \<^verbatim>\<open>utility\<close> returns 0.
\<close>

theorem optimal_play_draw:
  assumes "enumerates it"
  shows "\<exists>b as. play it initial_state = Inr b \<and>
           result_all initial_state as = Inr b \<and> length as = 9 \<and>
           wf_board b \<and> None \<notin> set (concat b) \<and>
           count_mark (Some X) b = 5 \<and> count_mark (Some O') b = 4 \<and>
           \<not> has_line b X \<and> \<not> has_line b O' \<and>
           winner b = Inr None \<and> terminal b = Inr True \<and> utility b = Inr 0"
  supply play.simps [simp del]
proof -
  have i: "turn_ok initial_state" "player initial_state = X" "count_mark None initial_state = 9"
    by (simp_all add: turn_ok_def player_def initial_state_def count_mark_def)
  from play_reaches_guaranteed[OF assms wf_initial_state i(1)] guaranteed_initial i(2,3)
  obtain b as where b: "play it initial_state = Inr b" "result_all initial_state as = Inr b"
    "length as + count_mark None b = 9" "wf_board b" "turn_ok b" "terminal b = Inr True"
    "utility b = Inr 0" by auto
  from draw_board[OF b(4,6,7)] have d: "winner b = Inr None" "None \<notin> set (concat b)"
    "\<not> has_line b X" "\<not> has_line b O'" by simp_all
  from d(2) have z: "count_mark None b = 0" by (simp add: count_mark_None_0)
  with b(3) have l: "length as = 9" by simp
  from count_mark_wf[OF b(4)] z b(5)
  have c: "count_mark (Some X) b = 5" "count_mark (Some O') b = 4"
    by (auto simp: turn_ok_def)
  from b(1,2) l b(4) d(2) c d(3,4,1) b(6,7) show ?thesis by blast
qed

theorem optimal_play_draw_witness:
  "enumerates row_major \<and>
   (\<exists>b as. play row_major initial_state = Inr b \<and>
           result_all initial_state as = Inr b \<and> length as = 9 \<and>
           wf_board b \<and> None \<notin> set (concat b) \<and>
           count_mark (Some X) b = 5 \<and> count_mark (Some O') b = 4 \<and>
           \<not> has_line b X \<and> \<not> has_line b O' \<and>
           winner b = Inr None \<and> terminal b = Inr True \<and> utility b = Inr 0)"
  using enumerates_row_major optimal_play_draw[OF enumerates_row_major] by blast

section \<open>\<^verbatim>\<open>result\<close> leaves its input as it was\<close>

lemma copy_rows_fresh:
  assumes "\<forall>r \<in> set rs. r < n" and "n \<le> length rows"
    and "\<forall>(r, y) \<in> set memo. r < n \<and> n \<le> y \<and> y < length rows \<and> rows ! y = rows ! r"
  shows "\<exists>ext ys. copy_rows rows memo rs = (rows @ ext, ys) \<and> length ys = length rs \<and>
           (\<forall>i < length rs. n \<le> ys ! i \<and> ys ! i < length (rows @ ext) \<and>
                             (rows @ ext) ! (ys ! i) = rows ! (rs ! i))"
  using assms
proof (induction rs arbitrary: rows memo)
  case Nil
  show ?case by simp
next
  case (Cons r rs)
  from Cons.prems(1) have rn: "r < n" and rsn: "\<forall>x \<in> set rs. x < n" by simp_all
  show ?case
  proof (cases "map_of memo r")
    case (Some y)
    then have "(r, y) \<in> set memo" by (rule map_of_SomeD)
    with Cons.prems(3) have y: "n \<le> y" "y < length rows" "rows ! y = rows ! r" by auto
    from Cons.IH[OF rsn Cons.prems(2,3)] obtain ext ys where
      c: "copy_rows rows memo rs = (rows @ ext, ys)" and l: "length ys = length rs" and
      a: "\<forall>i < length rs. n \<le> ys ! i \<and> ys ! i < length (rows @ ext) \<and>
                          (rows @ ext) ! (ys ! i) = rows ! (rs ! i)" by blast
    have "copy_rows rows memo (r # rs) = (rows @ ext, y # ys)"
      by (simp add: Some c)
    moreover have "\<forall>i < length (r # rs). n \<le> (y # ys) ! i \<and> (y # ys) ! i < length (rows @ ext) \<and>
        (rows @ ext) ! ((y # ys) ! i) = rows ! ((r # rs) ! i)"
    proof (intro allI impI)
      fix i assume "i < length (r # rs)"
      then show "n \<le> (y # ys) ! i \<and> (y # ys) ! i < length (rows @ ext) \<and>
        (rows @ ext) ! ((y # ys) ! i) = rows ! ((r # rs) ! i)"
        using y a by (cases i) (auto simp: nth_append)
    qed
    ultimately show ?thesis using l by auto
  next
    case None
    let ?rows1 = "rows @ [rows ! r]"
    let ?memo1 = "(r, length rows) # memo"
    have p2: "n \<le> length ?rows1" using Cons.prems(2) by simp
    have p3: "\<forall>(x, y) \<in> set ?memo1. x < n \<and> n \<le> y \<and> y < length ?rows1 \<and> ?rows1 ! y = ?rows1 ! x"
      using Cons.prems(2,3) rn by (auto simp: nth_append)
    from Cons.IH[OF rsn p2 p3] obtain ext ys where
      c: "copy_rows ?rows1 ?memo1 rs = (?rows1 @ ext, ys)" and l: "length ys = length rs" and
      a: "\<forall>i < length rs. n \<le> ys ! i \<and> ys ! i < length (?rows1 @ ext) \<and>
                          (?rows1 @ ext) ! (ys ! i) = ?rows1 ! (rs ! i)" by blast
    have "copy_rows rows memo (r # rs) = (rows @ (rows ! r # ext), length rows # ys)"
      by (simp add: None c Let_def)
    moreover have "\<forall>i < length (r # rs). n \<le> (length rows # ys) ! i \<and>
        (length rows # ys) ! i < length (rows @ (rows ! r # ext)) \<and>
        (rows @ (rows ! r # ext)) ! ((length rows # ys) ! i) = rows ! ((r # rs) ! i)"
    proof (intro allI impI)
      fix i assume i: "i < length (r # rs)"
      show "n \<le> (length rows # ys) ! i \<and>
        (length rows # ys) ! i < length (rows @ (rows ! r # ext)) \<and>
        (rows @ (rows ! r # ext)) ! ((length rows # ys) ! i) = rows ! ((r # rs) ! i)"
      proof (cases i)
        case 0
        then show ?thesis using Cons.prems(2) by simp
      next
        case (Suc k)
        with i have k: "k < length rs" by simp
        with rsn have "rs ! k < n" by simp
        with Cons.prems(2) have "?rows1 ! (rs ! k) = rows ! (rs ! k)" by (simp add: nth_append)
        with a k Suc show ?thesis by simp
      qed
    qed
    ultimately show ?thesis using l by (intro exI[of _ "rows ! r # ext"] exI[of _ "length rows # ys"]) simp
  qed
qed

lemma copy_rows_unshared:
  "distinct rs \<Longrightarrow> set rs \<inter> fst ` set memo = {} \<Longrightarrow> \<forall>r \<in> set rs. r < length rows \<Longrightarrow>
   copy_rows rows memo rs =
     (rows @ map (\<lambda>r. rows ! r) rs, [length rows ..< length rows + length rs])"
proof (induction rs arbitrary: rows memo)
  case Nil
  show ?case by simp
next
  case (Cons r rs)
  from Cons.prems(2) have none: "map_of memo r = None"
    by (auto simp: map_of_eq_None_iff)
  have ih: "copy_rows (rows @ [rows ! r]) ((r, length rows) # memo) rs =
      ((rows @ [rows ! r]) @ map (\<lambda>x. (rows @ [rows ! r]) ! x) rs,
       [length (rows @ [rows ! r]) ..< length (rows @ [rows ! r]) + length rs])"
    by (rule Cons.IH) (use Cons.prems in \<open>auto simp: less_Suc_eq\<close>)
  have m: "map (\<lambda>x. (rows @ [rows ! r]) ! x) rs = map (\<lambda>x. rows ! x) rs"
    using Cons.prems(3) by (auto simp: nth_append)
  have u: "length rows # [Suc (length rows) ..< Suc (length rows + length rs)] =
      [length rows ..< length rows + Suc (length rs)]"
    by (simp add: upt_conv_Cons del: upt_Suc)
  show ?case
    using u by (simp add: none ih m Let_def del: upt_Suc)
qed

lemma deepcopy_unshared:
  assumes "valid_board st p" and "distinct (board_objs st ! p)"
  shows "deepcopy st p =
     (\<lparr>row_objs = row_objs st @ board_value st p,
       board_objs = board_objs st @
         [[length (row_objs st) ..< length (row_objs st) + length (board_objs st ! p)]]\<rparr>,
      length (board_objs st))"
  using assms copy_rows_unshared[of "board_objs st ! p" "[]" "row_objs st"]
  by (simp add: deepcopy_def valid_board_def board_value_def list_all_iff)

lemma py_index_nth_upt:
  "py_index len i = Inr k \<Longrightarrow> py_get [n ..< n + len] i = Inr (n + k)"
  by (auto simp: py_get_def dest: py_index_Inr)

lemma result_st_unshared:
  assumes v: "valid_board st p" and d: "distinct (board_objs st ! p)"
    and r: "result (board_value st p) action = Inr nb"
  shows "result_st st p action =
     Inr (\<lparr>row_objs = row_objs st @ nb,
           board_objs = board_objs st @
             [[length (row_objs st) ..< length (row_objs st) + length (board_objs st ! p)]]\<rparr>,
          length (board_objs st))"
proof -
  let ?rows = "row_objs st" and ?rs = "board_objs st ! p" and ?b = "board_value st p"
  let ?n = "length ?rows"
  from result_Inr_D[OF r] obtain k j where
    k: "py_index (length ?b) (fst action) = Inr k" and
    j: "py_index (length (?b ! k)) (snd action) = Inr j" and
    kl: "k < length ?b" and jl: "j < length (?b ! k)" and e: "?b ! k ! j = None" and
    nb: "nb = ?b[k := (?b ! k)[j := Some (player ?b)]]" by blast
  have len: "length ?b = length ?rs" by (simp add: board_value_def)
  from kl have bk: "?b ! k = ?rows ! (?rs ! k)" by (simp add: board_value_def)
  from v have pl: "p < length (board_objs st)" and rl: "\<forall>x \<in> set ?rs. x < ?n"
    by (simp_all add: valid_board_def list_all_iff)
  let ?st1 = "\<lparr>row_objs = ?rows @ ?b,
       board_objs = board_objs st @ [[?n ..< ?n + length ?rs]]\<rparr>"
  have dc: "deepcopy st p = (?st1, length (board_objs st))"
    by (rule deepcopy_unshared[OF v d])
  have same: "board_value ?st1 p = ?b"
    using pl rl by (simp add: board_value_def nth_append)
  have g1: "py_get ?rs (fst action) = Inr (?rs ! k)"
    using k by (simp add: py_get_def len)
  have g2: "py_get (?rows ! (?rs ! k)) (snd action) = Inr None"
    using j e by (simp add: py_get_def bk)
  have g3: "py_get [?n ..< ?n + length ?rs] (fst action) = Inr (?n + k)"
    by (rule py_index_nth_upt[OF k[unfolded len]])
  have g4: "(?rows @ ?b) ! (?n + k) = ?b ! k"
    by (simp add: nth_append)
  have s: "py_set (?b ! k) (snd action) (Some (player ?b)) = Inr ((?b ! k)[j := Some (player ?b)])"
    using j by (simp add: py_set_def)
  have upd: "(?rows @ ?b)[?n + k := (?b ! k)[j := Some (player ?b)]] = ?rows @ nb"
    by (simp add: nb list_update_append)
  show ?thesis
    unfolding result_st_def Let_def
    by (simp add: g1 g2 dc g3 g4 same s upd del: upt_Suc)
qed

lemma board_value_new:
  assumes "length nb = len"
  shows "board_value \<lparr>row_objs = rows @ nb, board_objs = boards @ [[length rows ..< length rows + len]]\<rparr>
           (length boards) = nb"
  using assms by (auto simp: board_value_def nth_append intro: nth_equalityI)

lemma board_value_old:
  assumes "valid_board st q"
  shows "valid_board \<lparr>row_objs = row_objs st @ nb, board_objs = board_objs st @ [ys]\<rparr> q \<and>
         board_value \<lparr>row_objs = row_objs st @ nb, board_objs = board_objs st @ [ys]\<rparr> q
           = board_value st q"
  using assms by (auto simp: valid_board_def board_value_def nth_append list_all_iff)

lemma result_length: "result b a = Inr nb \<Longrightarrow> length nb = length b"
  by (drule result_Inr_D) auto

lemma wf_board_lengths:
  "wf_board b \<Longrightarrow> i \<in> {0, 1, 2} \<Longrightarrow> length b = 3 \<and> length (b ! nat i) = 3"
  by (auto simp: wf_board_def list_all_length)

lemma cell_at_in_range:
  assumes "wf_board b" and "i \<in> {0, 1, 2}" and "j \<in> {0, 1, 2}"
  shows "cell_at b i j = Inr (b ! nat i ! nat j)"
  using wf_board_lengths[OF assms(1,2)] assms(2,3)
  by (auto simp: cell_at_def py_get_def py_index_def)

lemma result_cells:
  assumes "wf_board b" and "row \<in> {0, 1, 2}" and "column \<in> {0, 1, 2}"
    and "result b (row, column) = Inr nb" and "i \<in> {0, 1, 2}" and "j \<in> {0, 1, 2}"
  shows "cell_at nb i j =
           (if (i, j) = (row, column) then Inr (Some (player b)) else cell_at b i j)"
proof -
  from result_Inr_D[OF assms(4)] obtain k l where
    k: "py_index (length b) row = Inr k" and l: "py_index (length (b ! k)) column = Inr l" and
    nb: "nb = b[k := (b ! k)[l := Some (player b)]]" by auto
  from wf_board_lengths[OF assms(1,2)] have len: "length b = 3" "length (b ! nat row) = 3"
    by simp_all
  from k assms(2) len have k': "k = nat row" by (auto simp: py_index_def)
  from l assms(3) len have l': "l = nat column" by (auto simp: py_index_def k')
  have ne: "nat i = nat row \<longleftrightarrow> i = row" "nat j = nat column \<longleftrightarrow> j = column"
    using assms(2,3,5,6) by auto
  have i3: "nat i < 3" and j3: "nat j < 3" and r3: "nat row < 3" and c3: "nat column < 3"
    using assms(2,3,5,6) by auto
  from wf_board_lengths[OF assms(1,5)] have leni: "length (b ! nat i) = 3" by simp
  have "nb ! nat i ! nat j =
      (if (i, j) = (row, column) then Some (player b) else b ! nat i ! nat j)"
    unfolding nb k' l' using len i3 j3 r3 c3 leni ne by (auto simp: nth_list_update)
  then show ?thesis
    using cell_at_in_range[OF wf_board_result[OF assms(1,4)] assms(5,6)]
      cell_at_in_range[OF assms(1,5,6)] by simp
qed

lemma result_st_frame:
  assumes v: "valid_board st p" and r: "result (board_value st p) action = Inr nb"
  shows "\<exists>st'. result_st st p action = Inr (st', length (board_objs st)) \<and>
           take (length (row_objs st)) (row_objs st') = row_objs st \<and>
           take (length (board_objs st)) (board_objs st') = board_objs st"
proof -
  let ?rows = "row_objs st" and ?rs = "board_objs st ! p" and ?b = "board_value st p"
  let ?n = "length ?rows"
  from result_Inr_D[OF r] obtain k j where
    k: "py_index (length ?b) (fst action) = Inr k" and
    j: "py_index (length (?b ! k)) (snd action) = Inr j" and
    kl: "k < length ?b" and e: "?b ! k ! j = None" by blast
  have len: "length ?b = length ?rs" by (simp add: board_value_def)
  from kl have bk: "?b ! k = ?rows ! (?rs ! k)" by (simp add: board_value_def)
  from v have pl: "p < length (board_objs st)" and rl: "\<forall>x \<in> set ?rs. x < ?n"
    by (simp_all add: valid_board_def list_all_iff)
  from copy_rows_fresh[of ?rs ?n ?rows "[]"] rl obtain ext ys where
    c: "copy_rows ?rows [] ?rs = (?rows @ ext, ys)" and ly: "length ys = length ?rs" and
    a: "\<forall>i < length ?rs. ?n \<le> ys ! i \<and> ys ! i < length (?rows @ ext) \<and>
                         (?rows @ ext) ! (ys ! i) = ?rows ! (?rs ! i)" by auto
  from a kl len have yk: "?n \<le> ys ! k" "(?rows @ ext) ! (ys ! k) = ?b ! k"
    by (simp_all add: bk)
  let ?st1 = "\<lparr>row_objs = ?rows @ ext, board_objs = board_objs st @ [ys]\<rparr>"
  have dc: "deepcopy st p = (?st1, length (board_objs st))"
    by (simp add: deepcopy_def c)
  have same: "board_value ?st1 p = ?b"
    using pl rl by (simp add: board_value_def nth_append)
  have g1: "py_get ?rs (fst action) = Inr (?rs ! k)"
    using k by (simp add: py_get_def len)
  have g2: "py_get (?rows ! (?rs ! k)) (snd action) = Inr None"
    using j e by (simp add: py_get_def bk)
  have g3: "py_get ys (fst action) = Inr (ys ! k)"
    using k by (simp add: py_get_def len ly)
  have s: "py_set (?b ! k) (snd action) (Some (player ?b)) = Inr ((?b ! k)[j := Some (player ?b)])"
    using j by (simp add: py_set_def)
  let ?st' = "\<lparr>row_objs = (?rows @ ext)[ys ! k := (?b ! k)[j := Some (player ?b)]],
               board_objs = board_objs st @ [ys]\<rparr>"
  have "result_st st p action = Inr (?st', length (board_objs st))"
    unfolding result_st_def Let_def
    by (simp add: g1 g2 dc g3 yk(2) same s)
  moreover have "take ?n (row_objs ?st') = ?rows"
    using yk(1) by (simp add: take_update_cancel)
  moreover have "take (length (board_objs st)) (board_objs ?st') = board_objs st" by simp
  ultimately show ?thesis by blast
qed

lemma board_value_prefix:
  assumes "take (length (row_objs st)) (row_objs st') = row_objs st"
    and "take (length (board_objs st)) (board_objs st') = board_objs st"
    and "valid_board st q"
  shows "valid_board st' q \<and> board_value st' q = board_value st q"
proof -
  have nth: "i < length xs \<Longrightarrow> xs' ! i = xs ! i" and le: "length xs \<le> length xs'"
    if "take (length xs) xs' = xs" for xs xs' :: "'a list" and i
  proof -
    from that have "length (take (length xs) xs') = length xs" by simp
    then show "length xs \<le> length xs'" by simp
    assume "i < length xs"
    then have "take (length xs) xs' ! i = xs' ! i" by simp
    with that show "xs' ! i = xs ! i" by simp
  qed
  from assms(3) have q: "q < length (board_objs st)"
    and rs: "\<forall>r \<in> set (board_objs st ! q). r < length (row_objs st)"
    by (simp_all add: valid_board_def list_all_iff)
  from nth[OF assms(2) q] have b: "board_objs st' ! q = board_objs st ! q" .
  from rs nth[OF assms(1)] have "\<forall>r \<in> set (board_objs st ! q). row_objs st' ! r = row_objs st ! r"
    by blast
  with b q rs le[OF assms(1)] le[OF assms(2)] show ?thesis
    by (auto simp: valid_board_def list_all_iff board_value_def)
qed

text \<open>
  Claim C6. For every board object \<open>p\<close> of a store whose cell at the action is empty,
  \<^verbatim>\<open>result\<close> returns a new board object and leaves every object that existed before the
  call as it was, the input board among them. Where the three rows of the input board are
  different objects (as \<^verbatim>\<open>initial_state\<close> and \<^verbatim>\<open>result\<close> build them), the board returned
  has rows of its own again, holds the mover's mark at the action and equals the input
  board on every other cell; its grid is the one \<open>result\<close> computes on values.
\<close>

theorem result_frame:
  assumes "valid_board st p" and "wf_board (board_value st p)"
    and "row \<in> {0, 1, 2}" and "column \<in> {0, 1, 2}"
    and "cell_at (board_value st p) row column = Inr EMPTY"
  shows "\<exists>st' p'. result_st st p (row, column) = Inr (st', p') \<and>
           take (length (row_objs st)) (row_objs st') = row_objs st \<and>
           take (length (board_objs st)) (board_objs st') = board_objs st \<and>
           (\<forall>q. valid_board st q \<longrightarrow>
              valid_board st' q \<and> board_value st' q = board_value st q) \<and>
           (distinct (board_objs st ! p) \<longrightarrow>
              valid_board st' p' \<and> distinct (board_objs st' ! p') \<and>
              result (board_value st p) (row, column) = Inr (board_value st' p') \<and>
              (\<forall>i \<in> {0, 1, 2}. \<forall>j \<in> {0, 1, 2}.
                 cell_at (board_value st' p') i j =
                   (if (i, j) = (row, column) then Inr (Some (player (board_value st p)))
                    else cell_at (board_value st p) i j)))"
proof -
  let ?b = "board_value st p"
  let ?p' = "length (board_objs st)"
  from cell_at_None_result[OF assms(5)] obtain nb where nb: "result ?b (row, column) = Inr nb"
    by blast
  from result_st_frame[OF assms(1) nb] obtain st' where
    r: "result_st st p (row, column) = Inr (st', ?p')" and
    pre: "take (length (row_objs st)) (row_objs st') = row_objs st"
      "take (length (board_objs st)) (board_objs st') = board_objs st" by blast
  have old: "\<forall>q. valid_board st q \<longrightarrow> valid_board st' q \<and> board_value st' q = board_value st q"
    using board_value_prefix[OF pre] by blast
  have new: "valid_board st' ?p' \<and> distinct (board_objs st' ! ?p') \<and>
      result ?b (row, column) = Inr (board_value st' ?p') \<and>
      (\<forall>i \<in> {0, 1, 2}. \<forall>j \<in> {0, 1, 2}.
         cell_at (board_value st' ?p') i j =
           (if (i, j) = (row, column) then Inr (Some (player ?b)) else cell_at ?b i j))"
    if d: "distinct (board_objs st ! p)"
  proof -
    let ?ys = "[length (row_objs st) ..< length (row_objs st) + length (board_objs st ! p)]"
    from result_st_unshared[OF assms(1) d nb] r
    have st': "st' = \<lparr>row_objs = row_objs st @ nb, board_objs = board_objs st @ [?ys]\<rparr>"
      by simp
    have len: "length nb = length (board_objs st ! p)"
      using result_length[OF nb] by (simp add: board_value_def)
    have val: "board_value st' ?p' = nb"
      unfolding st' by (rule board_value_new[OF len])
    have v: "valid_board st' ?p'"
      unfolding st' by (auto simp: valid_board_def list_all_iff len)
    have dn: "distinct (board_objs st' ! ?p')" unfolding st' by simp
    have cells: "\<forall>i \<in> {0, 1, 2}. \<forall>j \<in> {0, 1, 2}.
        cell_at nb i j = (if (i, j) = (row, column) then Inr (Some (player ?b)) else cell_at ?b i j)"
      using result_cells[OF assms(2,3,4) nb] by blast
    from v dn nb cells show ?thesis unfolding val by (intro conjI)
  qed
  from r pre old new show ?thesis by blast
qed

theorem result_frame_witness:
  "valid_board \<lparr>row_objs = [[None, None, None], [None, Some X, None], [None, None, None]],
                board_objs = [[0, 1, 2]]\<rparr> 0 \<and>
   distinct (board_objs \<lparr>row_objs = [[None, None, None], [None, Some X, None], [None, None, None]],
                board_objs = [[0, 1, 2]]\<rparr> ! 0) \<and>
   result_st \<lparr>row_objs = [[None, None, None], [None, Some X, None], [None, None, None]],
              board_objs = [[0, 1, 2]]\<rparr> 0 (0, 0) =
     Inr (\<lparr>row_objs = [[None, None, None], [None, Some X, None], [None, None, None],
                       [Some O', None, None], [None, Some X, None], [None, None, None]],
           board_objs = [[0, 1, 2], [3, 4, 5]]\<rparr>, 1) \<and>
   board_value \<lparr>row_objs = [[None, None, None], [None, Some X, None], [None, None, None],
                       [Some O', None, None], [None, Some X, None], [None, None, None]],
           board_objs = [[0, 1, 2], [3, 4, 5]]\<rparr> 0 =
     [[None, None, None], [None, Some X, None], [None, None, None]] \<and>
   board_value \<lparr>row_objs = [[None, None, None], [None, Some X, None], [None, None, None],
                       [Some O', None, None], [None, Some X, None], [None, None, None]],
           board_objs = [[0, 1, 2], [3, 4, 5]]\<rparr> 1 =
     [[Some O', None, None], [None, Some X, None], [None, None, None]]"
proof -
  let ?st = "\<lparr>row_objs = [[None, None, None], [None, Some X, None], [None, None, None]],
              board_objs = [[0, 1, 2]]\<rparr>"
  have v: "valid_board ?st 0" by (simp add: valid_board_def)
  have d: "distinct (board_objs ?st ! 0)" by simp
  have bv: "board_value ?st 0 = [[None, None, None], [None, Some X, None], [None, None, None]]"
    by (simp add: board_value_def)
  have w: "wf_board (board_value ?st 0)" by (simp add: board_value_def wf_board_def)
  have r: "(0::int) \<in> {0, 1, 2}" by simp
  have e: "cell_at (board_value ?st 0) 0 0 = Inr EMPTY"
    by (simp add: board_value_def cell_at_lit)
  have ev: "result_st ?st 0 (0, 0) =
     Inr (\<lparr>row_objs = [[None, None, None], [None, Some X, None], [None, None, None],
                       [Some O', None, None], [None, Some X, None], [None, None, None]],
           board_objs = [[0, 1, 2], [3, 4, 5]]\<rparr>, 1)"
    by code_simp
  show ?thesis
    using v d ev result_frame[OF v w r r e] by (simp add: board_value_def)
qed

text \<open>
  The condition on the rows: \<^verbatim>\<open>initial_state\<close> builds a board of three different row
  objects, and by the theorem above \<^verbatim>\<open>result\<close> returns one. A board whose rows were one
  shared object would be copied to a board of one shared row, and the assignment would
  then show in all three rows of the copy (lemma \<open>result_st_shared_rows\<close>); the input
  board stays as it was there too.
\<close>

lemma initial_state_st_unshared:
  assumes "initial_state_st st = (st', p)"
  shows "valid_board st' p \<and> distinct (board_objs st' ! p) \<and> board_value st' p = initial_state \<and>
         (\<forall>q. valid_board st q \<longrightarrow> valid_board st' q \<and> board_value st' q = board_value st q)"
proof -
  let ?n = "length (row_objs st)"
  from assms have st': "st' = \<lparr>row_objs = row_objs st @ initial_state,
      board_objs = board_objs st @ [[?n, ?n + 1, ?n + 2]]\<rparr>" and p: "p = length (board_objs st)"
    by (simp_all add: initial_state_st_def Let_def initial_state_def)
  have "valid_board st' p" "distinct (board_objs st' ! p)" "board_value st' p = initial_state"
    unfolding st' p by (simp_all add: valid_board_def board_value_def nth_append initial_state_def)
  moreover have "\<forall>q. valid_board st q \<longrightarrow> valid_board st' q \<and> board_value st' q = board_value st q"
    unfolding st' using board_value_old by blast
  ultimately show ?thesis by blast
qed

lemma result_st_shared_rows:
  "result_st \<lparr>row_objs = [[None, None, None]], board_objs = [[0, 0, 0]]\<rparr> 0 (0, 0) =
     Inr (\<lparr>row_objs = [[None, None, None], [Some X, None, None]],
           board_objs = [[0, 0, 0], [1, 1, 1]]\<rparr>, 1)"
  by code_simp

end
